theory Spec2Isabelle
  imports Main "HOL-Library.AList"
begin

text \<open>
  A model of \<^verbatim>\<open>main.go\<close>, the server that runs Conway's game of life and streams its
  frames: the grid and its transform \<open>Evolute\<close>, on lists and on a store of backing
  arrays; the encoders of a frame; the two hubs with their fan-out over the sessions'
  channels; and the handler of a stream. The definitions come first, section by
  section, then what is proved of them.
\<close>

section \<open>The grid and its transform (main.go, Board.Get and Evolute)\<close>

text \<open>
  \<^verbatim>\<open>type Board [][]bool\<close>: a slice of rows, each row a slice of cells. Rows may have
  different lengths and may be empty (a nil row has length 0).
\<close>

type_synonym Board = "bool list list"

text \<open>
  \<^verbatim>\<open>func (b Board) Get(i, j int) bool\<close>: the two range checks of the source come
  first, so the list is only read inside its bounds.
\<close>

definition Get :: "Board \<Rightarrow> int \<Rightarrow> int \<Rightarrow> bool" where
  "Get b i j =
     (if i < 0 \<or> i \<ge> int (length b) then False
      else if j < 0 \<or> j \<ge> int (length (b ! nat i)) then False
      else b ! nat i ! nat j)"

text \<open>The literal \<^verbatim>\<open>directions := [8][2]int{...}\<close> of Evolute, in the source's order.\<close>

definition directions :: "(int \<times> int) list" where
  "directions = [(1, 1), (1, 0), (1, -1), (0, 1), (0, -1), (-1, 1), (-1, 0), (-1, -1)]"

text \<open>
  \<^verbatim>\<open>for _, dir := range directions { if board.Get(i+dir[0], j+dir[1]) { cnt++ } }\<close>,
  starting from \<^verbatim>\<open>var cnt int\<close> (zero).
\<close>

definition count_neighbors :: "Board \<Rightarrow> int \<Rightarrow> int \<Rightarrow> int" where
  "count_neighbors board i j =
     fold (\<lambda>dir cnt. if Get board (i + fst dir) (j + snd dir) then cnt + 1 else cnt) directions 0"

text \<open>The three-way branch on \<^verbatim>\<open>cnt\<close> that decides \<^verbatim>\<open>newBoard[i][j]\<close>.\<close>

definition next_cell :: "Board \<Rightarrow> int \<Rightarrow> int \<Rightarrow> bool" where
  "next_cell board i j =
     (let cnt = count_neighbors board i j
      in if cnt = 2 then Get board i j
         else if cnt = 3 then True
         else False)"

text \<open>
  The inner loop \<^verbatim>\<open>for j := 0; j < len(board[i]); j++\<close>: each pass stores one cell
  into row \<open>i\<close> of \<open>newBoard\<close>.
\<close>

function evolute_inner :: "Board \<Rightarrow> nat \<Rightarrow> nat \<Rightarrow> Board \<Rightarrow> Board" where
  "evolute_inner board i j newBoard =
     (if j < length (board ! i)
      then evolute_inner board i (Suc j)
             (newBoard[i := (newBoard ! i)[j := next_cell board (int i) (int j)]])
      else newBoard)"
  by pat_completeness auto
termination
  by (relation "measure (\<lambda>(board, i, j, newBoard). length (board ! i) - j)") auto

text \<open>
  The outer loop \<^verbatim>\<open>for i := 0; i < len(board); i++\<close>: it first sets
  \<^verbatim>\<open>newBoard[i] = make([]bool, len(board[i]))\<close> (all cells false) and then runs the
  inner loop.
\<close>

function evolute_outer :: "Board \<Rightarrow> nat \<Rightarrow> Board \<Rightarrow> Board" where
  "evolute_outer board i newBoard =
     (if i < length board
      then evolute_outer board (Suc i)
             (evolute_inner board i 0 (newBoard[i := replicate (length (board ! i)) False]))
      else newBoard)"
  by pat_completeness auto
termination
  by (relation "measure (\<lambda>(board, i, newBoard). length board - i)") auto

text \<open>
  \<^verbatim>\<open>func Evolute(board Board) Board\<close>: \<^verbatim>\<open>make(Board, len(board))\<close> gives
  \<open>len(board)\<close> nil rows, which the outer loop fills.
\<close>

definition Evolute :: "Board \<Rightarrow> Board" where
  "Evolute board = evolute_outer board 0 (replicate (length board) [])"

text \<open>
  \<^verbatim>\<open>func NewBoard(w, h int) Board\<close>. The calls of \<^verbatim>\<open>rand.Int()\<close> return the values
  \<open>rnd 0\<close>, \<open>rnd 1\<close>, ... of the generator, none of them negative; the loops count the
  calls. The indices \<open>i\<close> and \<open>j\<close> of the assignment \<^verbatim>\<open>b[i][j] = true\<close> are below
  the lengths the two \<^verbatim>\<open>make\<close> calls gave.

  \<^verbatim>\<open>make\<close> panics (\<^verbatim>\<open>makeslice: len out of range\<close>) on a negative length and on a
  length whose elements would take more than the Go runtime allocates at all, which
  on 64-bit Linux is \<open>2 ^ 48\<close> bytes; an element of a \<^verbatim>\<open>[]bool\<close> takes 1 byte, an
  element of a \<^verbatim>\<open>[][]bool\<close>, a slice header, 24 bytes. A length within that limit is
  taken to be allocated: how much memory the machine has is not modelled.
\<close>

datatype panic = IndexOutOfRange | MakeLenOutOfRange

definition make_len_ok :: "int \<Rightarrow> int \<Rightarrow> bool" where
  "make_len_ok elem n = (0 \<le> n \<and> elem * n \<le> 2 ^ 48)"

definition NewBoard_cell :: "(nat \<Rightarrow> int) \<Rightarrow> nat \<Rightarrow> nat \<Rightarrow> Board \<times> nat \<Rightarrow> Board \<times> nat" where
  "NewBoard_cell rnd i j bk =
     (let (b, k) = bk
      in (if rnd k mod 5 = 0 then b[i := (b ! i)[j := True]] else b, Suc k))"

definition NewBoard_row :: "(nat \<Rightarrow> int) \<Rightarrow> nat \<Rightarrow> nat \<Rightarrow> Board \<times> nat \<Rightarrow> Board \<times> nat" where
  "NewBoard_row rnd h i bk =
     (let (b, k) = bk
      in fold (NewBoard_cell rnd i) [0..<h] (b[i := replicate h False], k))"

definition NewBoard :: "(nat \<Rightarrow> int) \<Rightarrow> int \<Rightarrow> int \<Rightarrow> panic + Board" where
  "NewBoard rnd w h =
     (if \<not> make_len_ok 24 w then Inl MakeLenOutOfRange
      else if 0 < w \<and> \<not> make_len_ok 1 h then Inl MakeLenOutOfRange
      else Inr (fst (fold (NewBoard_row rnd (nat h)) [0..<nat w] (replicate (nat w) [], 0))))"

subsection \<open>The rule in the words of the specification\<close>

text \<open>
  A position is live when it lies inside the grid and its cell is set; every position
  outside the grid is dead. The live neighbours of a cell are the live positions among
  the eight positions at offsets \<open>-1, 0, 1\<close> in each coordinate, the cell itself left out.
\<close>

definition alive :: "Board \<Rightarrow> int \<Rightarrow> int \<Rightarrow> bool" where
  "alive b r c =
     (0 \<le> r \<and> r < int (length b) \<and> 0 \<le> c \<and> c < int (length (b ! nat r)) \<and> b ! nat r ! nat c)"

definition live_neighbours :: "Board \<Rightarrow> int \<Rightarrow> int \<Rightarrow> nat" where
  "live_neighbours b r c =
     card (Set.filter (\<lambda>d. d \<noteq> (0, 0) \<and> alive b (r + fst d) (c + snd d))
             ({-1, 0, 1} \<times> {-1, 0, 1}))"

section \<open>The grid in memory\<close>

text \<open>
  Whether \<open>Evolute\<close> writes into the grid it was given, and whether what it returns is
  new memory, cannot be seen on lists. Here the slices of the source live in a store:
  the backing arrays of the \<^verbatim>\<open>[]bool\<close> rows and those of the \<^verbatim>\<open>[][]bool\<close> boards, each
  kind found by its address, the position in the list. A slice is \<open>None\<close> for Go's
  \<^verbatim>\<open>nil\<close>, or the address of its backing array, which it spans from end to end.
  \<^verbatim>\<open>make\<close> appends a zeroed array, so the address it returns was not in use. Go has
  no dangling pointers; a slice whose address the store does not have reads as empty.
\<close>

type_synonym addr = nat

type_synonym slice = "addr option"

record store =
  row_arrays :: "bool list list"
  board_arrays :: "slice list list"

definition cells_at :: "store \<Rightarrow> slice \<Rightarrow> bool list" where
  "cells_at h r =
     (case r of None \<Rightarrow> []
      | Some a \<Rightarrow> if a < length (row_arrays h) then row_arrays h ! a else [])"

definition rows_at :: "store \<Rightarrow> slice \<Rightarrow> slice list" where
  "rows_at h b =
     (case b of None \<Rightarrow> []
      | Some a \<Rightarrow> if a < length (board_arrays h) then board_arrays h ! a else [])"

text \<open>The grid a board slice stands for in a store: what the reads \<^verbatim>\<open>b[i][j]\<close> give.\<close>

definition board_of :: "store \<Rightarrow> slice \<Rightarrow> Board" where
  "board_of h b = map (cells_at h) (rows_at h b)"

text \<open>\<^verbatim>\<open>make([]bool, n)\<close> and \<^verbatim>\<open>make(Board, n)\<close>.\<close>

definition make_cells :: "store \<Rightarrow> nat \<Rightarrow> store \<times> slice" where
  "make_cells h n =
     (h\<lparr>row_arrays := row_arrays h @ [replicate n False]\<rparr>, Some (length (row_arrays h)))"

definition make_rows :: "store \<Rightarrow> nat \<Rightarrow> store \<times> slice" where
  "make_rows h n =
     (h\<lparr>board_arrays := board_arrays h @ [replicate n None]\<rparr>, Some (length (board_arrays h)))"

text \<open>
  The assignments \<^verbatim>\<open>r[j] = v\<close> to a row and \<^verbatim>\<open>b[i] = r\<close> to a board: Go's
  index-out-of-range panic when the index is not below the length.
\<close>

definition set_cell :: "store \<Rightarrow> slice \<Rightarrow> nat \<Rightarrow> bool \<Rightarrow> panic + store" where
  "set_cell h r j v =
     (case r of
        None \<Rightarrow> Inl IndexOutOfRange
      | Some a \<Rightarrow>
          if a < length (row_arrays h) \<and> j < length (row_arrays h ! a)
          then Inr (h\<lparr>row_arrays := (row_arrays h)[a := (row_arrays h ! a)[j := v]]\<rparr>)
          else Inl IndexOutOfRange)"

definition set_row :: "store \<Rightarrow> slice \<Rightarrow> nat \<Rightarrow> slice \<Rightarrow> panic + store" where
  "set_row h b i r =
     (case b of
        None \<Rightarrow> Inl IndexOutOfRange
      | Some a \<Rightarrow>
          if a < length (board_arrays h) \<and> i < length (board_arrays h ! a)
          then Inr (h\<lparr>board_arrays := (board_arrays h)[a := (board_arrays h ! a)[i := r]]\<rparr>)
          else Inl IndexOutOfRange)"

text \<open>
  The inner loop of \<open>Evolute\<close> on the store. Its condition reads \<^verbatim>\<open>board[i]\<close>; its
  body reads the neighbours through \<open>Get\<close> in the store of the moment and assigns
  \<^verbatim>\<open>newBoard[i][j]\<close>. The loop ends because an assignment to a cell changes no length.
\<close>

lemma set_cell_rows: "set_cell h r j v = Inr h' \<Longrightarrow> rows_at h' b = rows_at h b"
  by (auto simp: set_cell_def rows_at_def split: option.splits if_splits)

lemma set_cell_length: "set_cell h r j v = Inr h' \<Longrightarrow> length (cells_at h' x) = length (cells_at h x)"
  by (auto simp: set_cell_def cells_at_def nth_list_update split: option.splits if_splits)

function Evolute_inner_st :: "store \<Rightarrow> slice \<Rightarrow> slice \<Rightarrow> nat \<Rightarrow> nat \<Rightarrow> panic + store" where
  "Evolute_inner_st h board newBoard i j =
     (if i \<ge> length (rows_at h board) then Inl IndexOutOfRange
      else if j < length (cells_at h (rows_at h board ! i))
      then (let v = next_cell (board_of h board) (int i) (int j) in
            if i \<ge> length (rows_at h newBoard) then Inl IndexOutOfRange
            else case set_cell h (rows_at h newBoard ! i) j v of
                   Inl p \<Rightarrow> Inl p
                 | Inr h' \<Rightarrow> Evolute_inner_st h' board newBoard i (Suc j))
      else Inr h)"
  by pat_completeness auto
termination
proof (relation "measure (\<lambda>(h, board, newBoard, i, j). length (cells_at h (rows_at h board ! i)) - j)")
  show "wf (measure (\<lambda>(h, board, newBoard, i, j). length (cells_at h (rows_at h board ! i)) - j))"
    by simp
next
  fix h board newBoard i j v h'
  assume "j < length (cells_at h (rows_at h board ! i))"
    and "set_cell h (rows_at h newBoard ! i) j v = Inr h'"
  then show "((h', board, newBoard, i, Suc j), (h, board, newBoard, i, j))
      \<in> measure (\<lambda>(h, board, newBoard, i, j). length (cells_at h (rows_at h board ! i)) - j)"
    by (simp add: set_cell_rows set_cell_length)
qed

declare Evolute_inner_st.simps [simp del]

text \<open>
  The outer loop on the store: \<^verbatim>\<open>newBoard[i] = make([]bool, len(board[i]))\<close>, then
  the inner loop. It ends because nothing in its body changes the length of a board.
\<close>

lemma make_cells_rows: "rows_at (fst (make_cells h n)) b = rows_at h b"
  by (simp add: make_cells_def rows_at_def split: option.splits)

lemma set_row_length: "set_row h b i r = Inr h' \<Longrightarrow> length (rows_at h' x) = length (rows_at h x)"
  by (auto simp: set_row_def rows_at_def nth_list_update split: option.splits if_splits)

lemma Evolute_inner_st_rows:
  "Evolute_inner_st h board newBoard i j = Inr h' \<Longrightarrow> rows_at h' b = rows_at h b"
proof (induction h board newBoard i j rule: Evolute_inner_st.induct)
  case (1 h board newBoard i j)
  show ?case
  proof (cases "i < length (rows_at h board) \<and> j < length (cells_at h (rows_at h board ! i))")
    case False
    with "1.prems" show ?thesis
      by (subst (asm) Evolute_inner_st.simps) (auto split: if_splits)
  next
    case True
    let ?v = "next_cell (board_of h board) (int i) (int j)"
    from True "1.prems" obtain h1 where
      nb: "\<not> length (rows_at h newBoard) \<le> i"
      and sc: "set_cell h (rows_at h newBoard ! i) j ?v = Inr h1"
      and rec: "Evolute_inner_st h1 board newBoard i (Suc j) = Inr h'"
      by (subst (asm) Evolute_inner_st.simps) (auto simp: Let_def split: if_splits sum.splits)
    from True nb sc rec have "rows_at h' b = rows_at h1 b"
      by (intro "1.IH" [of ?v h1]) auto
    with sc show ?thesis by (simp add: set_cell_rows)
  qed
qed

function Evolute_outer_st :: "store \<Rightarrow> slice \<Rightarrow> slice \<Rightarrow> nat \<Rightarrow> panic + store" where
  "Evolute_outer_st h board newBoard i =
     (if i < length (rows_at h board)
      then (let (h1, r) = make_cells h (length (cells_at h (rows_at h board ! i))) in
            case set_row h1 newBoard i r of
              Inl p \<Rightarrow> Inl p
            | Inr h2 \<Rightarrow>
                (case Evolute_inner_st h2 board newBoard i 0 of
                   Inl p \<Rightarrow> Inl p
                 | Inr h3 \<Rightarrow> Evolute_outer_st h3 board newBoard (Suc i)))
      else Inr h)"
  by pat_completeness auto
termination
proof (relation "measure (\<lambda>(h, board, newBoard, i). length (rows_at h board) - i)")
  show "wf (measure (\<lambda>(h, board, newBoard, i). length (rows_at h board) - i))"
    by simp
next
  fix h board newBoard i x h1 r h2 h3
  assume lt: "i < length (rows_at h board)"
    and mk: "x = make_cells h (length (cells_at h (rows_at h board ! i)))" "(h1, r) = x"
    and st: "set_row h1 newBoard i r = Inr h2"
    and inn: "Evolute_inner_st h2 board newBoard i 0 = Inr h3"
  have "rows_at h1 board = rows_at h board"
    using mk make_cells_rows [of h _ board] by (metis fst_conv)
  moreover have "length (rows_at h2 board) = length (rows_at h1 board)"
    using st by (rule set_row_length)
  moreover have "rows_at h3 board = rows_at h2 board"
    using inn by (rule Evolute_inner_st_rows)
  ultimately show "((h3, board, newBoard, Suc i), (h, board, newBoard, i))
      \<in> measure (\<lambda>(h, board, newBoard, i). length (rows_at h board) - i)"
    using lt by simp
qed

declare Evolute_outer_st.simps [simp del]

text \<open>\<open>Evolute\<close> on the store: the store it leaves and the slice it returns.\<close>

definition Evolute_st :: "store \<Rightarrow> slice \<Rightarrow> panic + (store \<times> slice)" where
  "Evolute_st h board =
     (let (h0, newBoard) = make_rows h (length (rows_at h board)) in
      case Evolute_outer_st h0 board newBoard 0 of
        Inl p \<Rightarrow> Inl p
      | Inr h' \<Rightarrow> Inr (h', newBoard))"

text \<open>
  A board slice a Go program can hold: its backing array and those of its rows are in
  the store.
\<close>

definition allocated :: "store \<Rightarrow> slice \<Rightarrow> bool" where
  "allocated h r = (case r of None \<Rightarrow> True | Some x \<Rightarrow> x < length (row_arrays h))"

definition valid_board :: "store \<Rightarrow> slice \<Rightarrow> bool" where
  "valid_board h b =
     (case b of
        None \<Rightarrow> True
      | Some a \<Rightarrow> a < length (board_arrays h) \<and> list_all (allocated h) (board_arrays h ! a))"

text \<open>A store for concrete runs: one board of two rows.\<close>

definition sample_store :: store where
  "sample_store = \<lparr>row_arrays = [[False, True], [True, True]], board_arrays = [[Some 0, Some 1]]\<rparr>"

section \<open>Frames and their encoders (main.go, ImageBundle, Board.Svg, numberSvg)\<close>

text \<open>
  \<^verbatim>\<open>type ImageBundle struct { Data []byte; ContentType string }\<close>. Go's bytes and the
  bytes of its strings are the 8-bit characters of \<open>string\<close>.
\<close>

record ImageBundle =
  Data :: string
  ContentType :: string

text \<open>
  Go's \<^verbatim>\<open>int\<close> has 64 bits on the build target; \<open>go_int\<close> is the wrap-around of
  its arithmetic. Go's \<^verbatim>\<open>error\<close> values are known by their message.
\<close>

definition go_int :: "int \<Rightarrow> int" where
  "go_int x = (x + 2 ^ 63) mod 2 ^ 64 - 2 ^ 63"

type_synonym error = string

text \<open>
  \<^verbatim>\<open>strconv.Itoa\<close> of the Go standard library, from its documentation: the decimal
  digits of the number, most significant first, after a minus sign when it is negative.
\<close>

definition digit_char :: "nat \<Rightarrow> char" where
  "digit_char d = ''0123456789'' ! d"

function digits :: "nat \<Rightarrow> string" where
  "digits n = (if n < 10 then [digit_char n] else digits (n div 10) @ [digit_char (n mod 10)])"
  by pat_completeness auto
termination
  by (relation "measure (\<lambda>n. n)") auto

definition Itoa :: "int \<Rightarrow> string" where
  "Itoa v = (if v < 0 then CHR ''-'' # digits (nat (- v)) else digits (nat v))"

text \<open>
  Reading a decimal numeral, as the receiver of a \<^verbatim>\<open>Content-Length\<close> header does: a
  non-empty string of the digits \<open>0\<close> to \<open>9\<close> (character codes 48 to 57) denotes a number,
  anything else does not.
\<close>

definition read_decimal :: "string \<Rightarrow> nat option" where
  "read_decimal s =
     (if s \<noteq> [] \<and> list_all (\<lambda>c. 48 \<le> (of_char c :: nat) \<and> (of_char c :: nat) \<le> 57) s
      then Some (fold (\<lambda>c n. 10 * n + ((of_char c :: nat) - 48)) s 0)
      else None)"

text \<open>
  The drawing library \<^verbatim>\<open>github.com/ajstarks/svgo\<close> is not part of the repository.
  A canvas prints into the buffer it was created on; the text each call prints is a
  parameter of the model.
\<close>

record svgo =
  svg_Start :: "int \<Rightarrow> int \<Rightarrow> string"
  svg_Rect :: "int \<Rightarrow> int \<Rightarrow> int \<Rightarrow> int \<Rightarrow> string list \<Rightarrow> string"
  svg_Text :: "int \<Rightarrow> int \<Rightarrow> string \<Rightarrow> string list \<Rightarrow> string"
  svg_End :: string

definition dquote :: string where
  "dquote = [CHR 0x22]"

text \<open>
  \<^verbatim>\<open>func (b Board) Svg(scale int) ([]byte, error)\<close>. The argument \<^verbatim>\<open>k*len(b[0])\<close> of
  \<^verbatim>\<open>canvas.Start\<close> indexes row 0 before anything is printed: on a board without rows
  this is Go's index-out-of-range panic. The two loops read \<^verbatim>\<open>b[i][j]\<close> inside the
  bounds their conditions check. The only \<^verbatim>\<open>return\<close> gives the error \<^verbatim>\<open>nil\<close>.
\<close>

definition Svg :: "svgo \<Rightarrow> Board \<Rightarrow> int \<Rightarrow> panic + (string \<times> error option)" where
  "Svg lib b scale =
     (let k = scale in
      case b of
        [] \<Rightarrow> Inl IndexOutOfRange
      | b0 # _ \<Rightarrow>
          let buf = svg_Start lib (go_int (k * int (length b))) (go_int (k * int (length b0)));
              buf = fold (\<lambda>i buf.
                      fold (\<lambda>j buf.
                        if \<not> b ! i ! j then buf
                        else buf @ svg_Rect lib (go_int (int i * k)) (go_int (int j * k)) k k
                                     [''fill='' @ dquote @ ''black'' @ dquote])
                        [0..<length (b ! i)] buf)
                      [0..<length b] buf;
              buf = buf @ svg_End lib
          in Inr (buf, None))"

text \<open>\<^verbatim>\<open>func numberSvg(v int) []byte\<close>.\<close>

definition numberSvg :: "svgo \<Rightarrow> int \<Rightarrow> string" where
  "numberSvg lib v =
     (let s = Itoa v
      in svg_Start lib (go_int (int (length s) * 14)) 14 @
         svg_Text lib 7 7 (Itoa v)
           [''font-size='' @ dquote @ ''14'' @ dquote,
            ''fill='' @ dquote @ ''red'' @ dquote,
            ''dominant-baseline='' @ dquote @ ''middle'' @ dquote,
            ''text-anchor='' @ dquote @ ''middle'' @ dquote] @
         svg_End lib)"

text \<open>
  A printing to run the encoders on concrete boards: the shape of the library's output
  with the attributes in the order given. Nothing proved below depends on it.
\<close>

definition sample_svgo :: svgo where
  "sample_svgo =
     \<lparr>svg_Start = (\<lambda>w h. ''<svg width='' @ dquote @ Itoa w @ dquote @
                            '' height='' @ dquote @ Itoa h @ dquote @ ''>''),
      svg_Rect = (\<lambda>x y w h attrs. ''<rect x='' @ dquote @ Itoa x @ dquote @
                            '' y='' @ dquote @ Itoa y @ dquote @
                            '' width='' @ dquote @ Itoa w @ dquote @
                            '' height='' @ dquote @ Itoa h @ dquote @
                            concat (map (\<lambda>a. CHR '' '' # a) attrs) @ '' />''),
      svg_Text = (\<lambda>x y t attrs. ''<text x='' @ dquote @ Itoa x @ dquote @
                            '' y='' @ dquote @ Itoa y @ dquote @
                            concat (map (\<lambda>a. CHR '' '' # a) attrs) @ ''>'' @ t @ ''</text>''),
      svg_End = ''</svg>''\<rparr>"

section \<open>Sinks and the non-blocking send\<close>

text \<open>
  A sink is the channel \<^verbatim>\<open>make(chan ImageBundle)\<close> of one session: unbuffered, so it
  stores nothing itself. By Go's channel semantics a send on it can proceed only while
  the session is blocked in its receive; the frame then passes to the session, which
  leaves the receive and holds the frame until it has written it and comes back to its
  \<^verbatim>\<open>select\<close>. \<open>waiting\<close> says that the session is blocked in the receive, \<open>got\<close> lists
  the frames handed over and not yet consumed.
\<close>

type_synonym chan = nat

record sink =
  waiting :: bool
  got :: "ImageBundle list"

definition make_chan :: sink where
  "make_chan = \<lparr>waiting = False, got = []\<rparr>"

text \<open>
  The communication \<^verbatim>\<open>ch <- bundle\<close> as a case of a \<^verbatim>\<open>select\<close>: \<open>Some\<close> of the
  sink after the hand-over when it can proceed now, \<open>None\<close> when it cannot.
\<close>

definition chan_send :: "sink \<Rightarrow> ImageBundle \<Rightarrow> sink option" where
  "chan_send s v = (if waiting s then Some (s\<lparr>waiting := False, got := got s @ [v]\<rparr>) else None)"

text \<open>
  \<^verbatim>\<open>select { case ch <- bundle: default: }\<close>: the send when it can proceed, otherwise
  the empty default case.
\<close>

definition select_send_default :: "sink \<Rightarrow> ImageBundle \<Rightarrow> sink" where
  "select_send_default s v = (case chan_send s v of Some s' \<Rightarrow> s' | None \<Rightarrow> s)"

text \<open>
  The session's side: coming back to the \<^verbatim>\<open>select\<close> of its loop it has consumed what
  it held and blocks in the receive again.
\<close>

definition session_receive :: "sink \<Rightarrow> sink" where
  "session_receive s = s\<lparr>waiting := True, got := []\<rparr>"

text \<open>
  The membership of a hub is a Go map \<^verbatim>\<open>map[chan<- ImageBundle]struct{}\<close>: an
  association list with the keys in the order the \<^verbatim>\<open>range\<close> loop visits them (Go
  leaves that order open). The fan-out loop of both hubs,
  \<^verbatim>\<open>for ch := range chs { select { case ch <- bundle: default: } }\<close>, is \<open>publish\<close>;
  \<open>offer\<close> is its body for one channel.
\<close>

definition offer :: "ImageBundle \<Rightarrow> chan \<Rightarrow> (chan \<Rightarrow> sink) \<Rightarrow> (chan \<Rightarrow> sink)" where
  "offer bundle ch sinks = sinks(ch := select_send_default (sinks ch) bundle)"

definition publish :: "(chan \<times> unit) list \<Rightarrow> ImageBundle \<Rightarrow> (chan \<Rightarrow> sink) \<Rightarrow> (chan \<Rightarrow> sink)" where
  "publish chs bundle sinks = fold (offer bundle) (map fst chs) sinks"

text \<open>A producer that publishes one frame after the other, no session running in between.\<close>

definition publish_all :: "(chan \<times> unit) list \<Rightarrow> ImageBundle list \<Rightarrow> (chan \<Rightarrow> sink) \<Rightarrow> (chan \<Rightarrow> sink)" where
  "publish_all chs bundles sinks = fold (publish chs) bundles sinks"

text \<open>
  What can happen to the sinks, in any order: a hub publishes a frame to its members
  of the moment, or the session of a channel comes back to its receive. A channel
  starts as \<open>make_chan\<close>.
\<close>

datatype sink_event = HubPublish "(chan \<times> unit) list" ImageBundle | SessionReceive chan

fun sink_step :: "sink_event \<Rightarrow> (chan \<Rightarrow> sink) \<Rightarrow> (chan \<Rightarrow> sink)" where
  "sink_step (HubPublish chs bundle) sinks = publish chs bundle sinks"
| "sink_step (SessionReceive c) sinks = sinks(c := session_receive (sinks c))"

definition sinks_after :: "sink_event list \<Rightarrow> (chan \<Rightarrow> sink)" where
  "sinks_after evs = fold sink_step evs (\<lambda>c. make_chan)"

text \<open>
  The invariant of a sink: it holds at most one frame, and none while its session is
  blocked in the receive.
\<close>

definition sink_ok :: "sink \<Rightarrow> bool" where
  "sink_ok s = (length (got s) \<le> 1 \<and> (if waiting s then got s = [] else True))"

text \<open>Two frames for concrete runs.\<close>

definition frame_a :: ImageBundle where
  "frame_a = \<lparr>Data = ''<svg/>'', ContentType = ''image/svg+xml''\<rparr>"

definition frame_b :: ImageBundle where
  "frame_b = \<lparr>Data = ''<svg></svg>'', ContentType = ''image/svg+xml''\<rparr>"

section \<open>The simulation hub (main.go, GameRender)\<close>

record GameRender =
  gameChs :: "(chan \<times> unit) list"

definition NewGameRender :: GameRender where
  "NewGameRender = \<lparr>gameChs = []\<rparr>"

text \<open>
  \<^verbatim>\<open>func (r *GameRender) Register(c chan<- ImageBundle) func()\<close>: the new hub and the
  closure it returns, which acts on the hub it is called on. The assignment to the map
  and \<^verbatim>\<open>delete\<close> keep the keys distinct, so the length of the list is \<^verbatim>\<open>len\<close> of
  the map. Each call is described by itself, from the hub before it to the hub after
  it: the source calls \<open>Register\<close> and the closure from the handlers' goroutines and
  reads the map in the goroutine of \<open>Start\<close>, without a lock, and what happens when
  these run at the same time is not part of this model.
\<close>

definition GameRender_Register :: "chan \<Rightarrow> GameRender \<Rightarrow> GameRender \<times> (GameRender \<Rightarrow> GameRender)" where
  "GameRender_Register c r =
     (r\<lparr>gameChs := AList.update c () (gameChs r)\<rparr>,
      \<lambda>r. r\<lparr>gameChs := AList.delete c (gameChs r)\<rparr>)"

text \<open>
  The goroutine of \<^verbatim>\<open>GameRender.Start\<close>. Its state: the hub \<open>r\<close>, the local board
  \<open>b\<close>, the sinks of the sessions, what it has done that shows outside (its sleeps, in
  milliseconds, and the lines it printed) and the number of calls of \<open>Evolute\<close> so far.
\<close>

datatype effect = Sleep nat | Println string

record game_state =
  gs_render :: GameRender
  gs_board :: Board
  gs_sinks :: "chan \<Rightarrow> sink"
  gs_effects :: "effect list"
  gs_evolutions :: nat

text \<open>One pass through the body of the \<^verbatim>\<open>for\<close> loop; a panic ends the program.\<close>

definition GameRender_pass :: "svgo \<Rightarrow> game_state \<Rightarrow> panic + game_state" where
  "GameRender_pass lib s =
     (if length (gameChs (gs_render s)) = 0
      then Inr (s\<lparr>gs_effects := gs_effects s @ [Sleep 100]\<rparr>)
      else
        let b = Evolute (gs_board s);
            s = s\<lparr>gs_board := b, gs_evolutions := Suc (gs_evolutions s)\<rparr>
        in case Svg lib b 10 of
             Inl p \<Rightarrow> Inl p
           | Inr (img, Some err) \<Rightarrow> Inr (s\<lparr>gs_effects := gs_effects s @ [Println err]\<rparr>)
           | Inr (img, None) \<Rightarrow>
               let bundle = \<lparr>Data = img, ContentType = ''image/svg+xml''\<rparr>
               in Inr (s\<lparr>gs_sinks := publish (gameChs (gs_render s)) bundle (gs_sinks s),
                         gs_effects := gs_effects s @ [Sleep 1000]\<rparr>))"

text \<open>The first \<open>n\<close> passes of the loop, which itself never ends.\<close>

fun GameRender_passes :: "svgo \<Rightarrow> nat \<Rightarrow> game_state \<Rightarrow> panic + game_state" where
  "GameRender_passes lib 0 s = Inr s"
| "GameRender_passes lib (Suc n) s =
     (case GameRender_pass lib s of Inl p \<Rightarrow> Inl p | Inr s' \<Rightarrow> GameRender_passes lib n s')"

text \<open>
  \<^verbatim>\<open>NewGameRender\<close> followed by \<^verbatim>\<open>Start\<close>: an empty hub and the board \<open>b0\<close> the
  goroutine begins with, which is what \<^verbatim>\<open>NewBoard(80, 60)\<close> returned.
\<close>

definition game_start :: "Board \<Rightarrow> (chan \<Rightarrow> sink) \<Rightarrow> game_state" where
  "game_start b0 sinks =
     \<lparr>gs_render = NewGameRender, gs_board = b0, gs_sinks = sinks, gs_effects = [],
      gs_evolutions = 0\<rparr>"

section \<open>The viewer-count hub (main.go, ViewersRender)\<close>

text \<open>
  The goroutine of \<^verbatim>\<open>ViewersRender.Start\<close> owns the map \<open>viewers\<close>. Each pass of its
  loop waits in a \<^verbatim>\<open>select\<close> for a channel arriving on \<open>viewerJoin\<close>, one arriving on
  \<open>viewerLeave\<close>, or the tick, and then publishes the count.
\<close>

datatype hub_event = Join chan | Leave chan | Tick

record viewers_state =
  viewers :: "(chan \<times> unit) list"
  vs_sinks :: "chan \<Rightarrow> sink"

definition ViewersRender_pass :: "svgo \<Rightarrow> hub_event \<Rightarrow> viewers_state \<Rightarrow> viewers_state" where
  "ViewersRender_pass lib ev s =
     (let vs = (case ev of
                  Join c \<Rightarrow> AList.update c () (viewers s)
                | Leave c \<Rightarrow> AList.delete c (viewers s)
                | Tick \<Rightarrow> viewers s);
          bundle = \<lparr>Data = numberSvg lib (int (length vs)), ContentType = ''image/svg+xml''\<rparr>
      in \<lparr>viewers = vs, vs_sinks = publish vs bundle (vs_sinks s)\<rparr>)"

text \<open>
  \<^verbatim>\<open>func (r *ViewersRender) Register(c chan<- ImageBundle) func()\<close>: the send
  \<^verbatim>\<open>r.viewerJoin <- c\<close> on the unbuffered channel completes when the goroutine takes
  \<open>c\<close> in its \<^verbatim>\<open>select\<close>, which starts the pass for that event; likewise each call
  of the returned closure and \<^verbatim>\<open>r.viewerLeave <- c\<close>.
\<close>

definition ViewersRender_Register ::
  "svgo \<Rightarrow> chan \<Rightarrow> viewers_state \<Rightarrow> viewers_state \<times> (viewers_state \<Rightarrow> viewers_state)" where
  "ViewersRender_Register lib c s =
     (ViewersRender_pass lib (Join c) s, ViewersRender_pass lib (Leave c))"

section \<open>The stream session (main.go, streamHandleFunc)\<close>

text \<open>
  \<^verbatim>\<open>http.ResponseWriter\<close> belongs to the Go standard library. The model keeps the
  response headers, the bytes the connection has accepted, every chunk that was passed
  to \<^verbatim>\<open>Write\<close> (accepted or not), how many bytes were flushed, and the outcomes of
  the coming \<^verbatim>\<open>Write\<close> calls: \<open>None\<close> for a call that succeeds, \<open>Some e\<close> for one that
  fails with the error \<open>e\<close>; when the list is used up every call succeeds. A failing
  call is taken to add nothing to the accepted bytes.
\<close>

record ResponseWriter =
  rw_header :: "(string \<times> string) list"
  rw_body :: string
  rw_calls :: "string list"
  rw_flushed :: nat
  rw_faults :: "error option list"

definition rw_Write :: "ResponseWriter \<Rightarrow> string \<Rightarrow> ResponseWriter \<times> error option" where
  "rw_Write w bs =
     (let w = w\<lparr>rw_calls := rw_calls w @ [bs]\<rparr>
      in case rw_faults w of
           [] \<Rightarrow> (w\<lparr>rw_body := rw_body w @ bs\<rparr>, None)
         | None # fs \<Rightarrow> (w\<lparr>rw_body := rw_body w @ bs, rw_faults := fs\<rparr>, None)
         | Some e # fs \<Rightarrow> (w\<lparr>rw_faults := fs\<rparr>, Some e))"

text \<open>None of the next \<open>n\<close> calls of \<^verbatim>\<open>Write\<close> fails.\<close>

fun no_fault :: "nat \<Rightarrow> error option list \<Rightarrow> bool" where
  "no_fault 0 fs = True"
| "no_fault (Suc n) [] = True"
| "no_fault (Suc n) (None # fs) = no_fault n fs"
| "no_fault (Suc n) (Some e # fs) = False"

definition rw_Header_Set :: "string \<Rightarrow> string \<Rightarrow> ResponseWriter \<Rightarrow> ResponseWriter" where
  "rw_Header_Set k v w = w\<lparr>rw_header := AList.update k v (rw_header w)\<rparr>"

definition rw_Flush :: "ResponseWriter \<Rightarrow> ResponseWriter" where
  "rw_Flush w = w\<lparr>rw_flushed := length (rw_body w)\<rparr>"

definition CRLF :: string where
  "CRLF = [CHR 0x0D, CHR 0x0A]"

definition boundary :: string where
  "boundary = ''BOUNDARY''"

text \<open>
  The four \<^verbatim>\<open>w.Write\<close> calls of the receive case. Each assigns \<^verbatim>\<open>err\<close> anew, so
  the value that reaches the check \<^verbatim>\<open>if err != nil\<close> is the last call's.
\<close>

definition write_frame :: "ResponseWriter \<Rightarrow> ImageBundle \<Rightarrow> ResponseWriter \<times> error option" where
  "write_frame w data =
     (let (w, err) = rw_Write w (CRLF @ ''--'' @ boundary @ CRLF);
          (w, err) = rw_Write w (''Content-Type: '' @ ContentType data @ CRLF);
          (w, err) = rw_Write w (''Content-Length: '' @ Itoa (int (length (Data data))) @ CRLF @ CRLF);
          (w, err) = rw_Write w (Data data)
      in (w, err))"

text \<open>
  A session: where it is in its life, its connection, its channel, the closure
  \<^verbatim>\<open>unregister\<close> it got from \<^verbatim>\<open>render.Register\<close>, and the lines it printed. The hub is
  any implementation of the interface \<^verbatim>\<open>Render\<close>, given by its \<open>Register\<close>.
\<close>

datatype phase = Streaming | Closed

record 'h session =
  s_phase :: phase
  s_conn :: ResponseWriter
  s_ch :: chan
  s_unregister :: "'h \<Rightarrow> 'h"
  s_stdout :: "string list"

text \<open>
  The handler up to its loop: the channel \<open>c\<close> is the one \<^verbatim>\<open>make\<close> returned, then
  \<^verbatim>\<open>render.Register(ch)\<close> and the \<^verbatim>\<open>Content-Type\<close> header.
\<close>

definition streamHandle_enter ::
  "(chan \<Rightarrow> 'h \<Rightarrow> 'h \<times> ('h \<Rightarrow> 'h)) \<Rightarrow> chan \<Rightarrow> ResponseWriter \<Rightarrow> 'h \<Rightarrow> 'h \<times> 'h session" where
  "streamHandle_enter register c w hub =
     (let (hub, unregister) = register c hub;
          w = rw_Header_Set ''Content-Type'' (''multipart/x-mixed-replace; boundary='' @ boundary) w
      in (hub, \<lparr>s_phase = Streaming, s_conn = w, s_ch = c, s_unregister = unregister,
                s_stdout = []\<rparr>))"

text \<open>
  One pass of the handler's loop, by the case its \<^verbatim>\<open>select\<close> takes. On
  \<^verbatim>\<open>r.Context().Done()\<close> the handler returns and its deferred calls run, last
  deferred first: the \<^verbatim>\<open>Connection\<close> header, then \<^verbatim>\<open>unregister()\<close>. On a frame it
  writes the part, prints the error if there is one, flushes (the server's writer is
  an \<^verbatim>\<open>http.Flusher\<close>), and stays in the loop.
  A session that has returned does nothing more.
\<close>

datatype session_event = CtxDone | Recv ImageBundle

definition streamHandle_pass :: "session_event \<Rightarrow> 'h \<times> 'h session \<Rightarrow> 'h \<times> 'h session" where
  "streamHandle_pass ev hs =
     (let (hub, s) = hs in
      if s_phase s = Closed then (hub, s)
      else case ev of
        CtxDone \<Rightarrow>
          (s_unregister s hub,
           s\<lparr>s_phase := Closed, s_conn := rw_Header_Set ''Connection'' ''close'' (s_conn s)\<rparr>)
      | Recv data \<Rightarrow>
          let (w, err) = write_frame (s_conn s) data;
              out = (case err of Some e \<Rightarrow> s_stdout s @ [e] | None \<Rightarrow> s_stdout s);
              w = rw_Flush w
          in (hub, s\<lparr>s_conn := w, s_stdout := out\<rparr>))"

text \<open>
  Two connections for concrete runs: one on which every write succeeds, and one whose
  fourth write fails.
\<close>

definition sound_conn :: ResponseWriter where
  "sound_conn = \<lparr>rw_header = [], rw_body = [], rw_calls = [], rw_flushed = 0, rw_faults = []\<rparr>"

definition broken_conn :: ResponseWriter where
  "broken_conn = \<lparr>rw_header = [], rw_body = [], rw_calls = [], rw_flushed = 0,
                   rw_faults = [None, None, None, Some ''write: broken pipe'']\<rparr>"

section \<open>Properties of the grid transform\<close>

lemma Get_alive: "Get b r c = alive b r c"
  by (auto simp: Get_def alive_def)

lemma fold_count:
  "fold (\<lambda>d (cnt::int). if P d then cnt + 1 else cnt) ds n = n + int (length (filter P ds))"
  by (induction ds arbitrary: n) auto

lemma set_directions: "set directions = ({-1, 0, 1} \<times> {-1, 0, 1}) - {(0, 0)}"
  by (auto simp: directions_def)

lemma distinct_directions: "distinct directions"
  by (simp add: directions_def)

lemma count_neighbors_spec: "count_neighbors b r c = int (live_neighbours b r c)"
proof -
  let ?P = "\<lambda>d. alive b (r + fst d) (c + snd d)"
  have "count_neighbors b r c = int (length (filter ?P directions))"
    by (simp add: count_neighbors_def fold_count Get_alive)
  also have "length (filter ?P directions) = card (set (filter ?P directions))"
    by (rule distinct_card [symmetric]) (simp add: distinct_directions)
  also have "set (filter ?P directions) =
      Set.filter (\<lambda>d. d \<noteq> (0, 0) \<and> ?P d) ({-1, 0, 1} \<times> {-1, 0, 1})"
    unfolding set_filter set_directions by auto
  finally show ?thesis by (simp add: live_neighbours_def)
qed

lemma next_cell_spec:
  "next_cell b r c =
     (if alive b r c then live_neighbours b r c = 2 \<or> live_neighbours b r c = 3
      else live_neighbours b r c = 3)"
  by (auto simp: next_cell_def Let_def count_neighbors_spec Get_alive)

subsection \<open>What the two loops compute\<close>

declare evolute_inner.simps [simp del] evolute_outer.simps [simp del]

lemma length_evolute_inner: "length (evolute_inner board i j nb) = length nb"
proof (induction board i j nb rule: evolute_inner.induct)
  case (1 board i j nb)
  then show ?case by (subst evolute_inner.simps) simp
qed

lemma evolute_inner_other:
  "k \<noteq> i \<Longrightarrow> evolute_inner board i j nb ! k = nb ! k"
proof (induction board i j nb rule: evolute_inner.induct)
  case (1 board i j nb)
  then show ?case by (subst evolute_inner.simps) simp
qed

lemma evolute_inner_row:
  assumes "i < length nb" "length (nb ! i) = length (board ! i)" "j \<le> length (board ! i)"
  shows "evolute_inner board i j nb ! i =
           take j (nb ! i) @ map (\<lambda>c. next_cell board (int i) (int c)) [j..<length (board ! i)]"
  using assms
proof (induction board i j nb rule: evolute_inner.induct)
  case (1 board i j nb)
  show ?case
  proof (cases "j < length (board ! i)")
    case True
    let ?nb = "nb[i := (nb ! i)[j := next_cell board (int i) (int j)]]"
    have "evolute_inner board i j nb ! i = evolute_inner board i (Suc j) ?nb ! i"
      using True by (subst evolute_inner.simps) simp
    also have "\<dots> = take (Suc j) (?nb ! i) @
        map (\<lambda>c. next_cell board (int i) (int c)) [Suc j..<length (board ! i)]"
      using "1.IH" [OF True] "1.prems" True by simp
    also have "take (Suc j) (?nb ! i) = take j (nb ! i) @ [next_cell board (int i) (int j)]"
      using "1.prems" True by (simp add: take_Suc_conv_app_nth)
    finally show ?thesis
      using True by (simp add: upt_conv_Cons)
  next
    case False
    with "1.prems" show ?thesis by (subst evolute_inner.simps) simp
  qed
qed

lemma length_evolute_outer: "length (evolute_outer board i nb) = length nb"
proof (induction board i nb rule: evolute_outer.induct)
  case (1 board i nb)
  then show ?case by (subst evolute_outer.simps) (simp add: length_evolute_inner)
qed

lemma evolute_outer_below:
  "k < i \<Longrightarrow> evolute_outer board i nb ! k = nb ! k"
proof (induction board i nb rule: evolute_outer.induct)
  case (1 board i nb)
  then show ?case
    by (subst evolute_outer.simps) (simp add: evolute_inner_other)
qed

lemma evolute_outer_row:
  assumes "length nb = length board" "i \<le> k" "k < length board"
  shows "evolute_outer board i nb ! k =
           map (\<lambda>c. next_cell board (int k) (int c)) [0..<length (board ! k)]"
  using assms
proof (induction board i nb rule: evolute_outer.induct)
  case (1 board i nb)
  let ?nb = "evolute_inner board i 0 (nb[i := replicate (length (board ! i)) False])"
  have lt: "i < length board" using "1.prems" by simp
  have step: "evolute_outer board i nb = evolute_outer board (Suc i) ?nb"
    using lt by (subst evolute_outer.simps) simp
  have len: "length ?nb = length board"
    using "1.prems" by (simp add: length_evolute_inner)
  show ?case
  proof (cases "i = k")
    case True
    have "evolute_outer board (Suc i) ?nb ! k = ?nb ! k"
      using True by (simp add: evolute_outer_below)
    also have "\<dots> = map (\<lambda>c. next_cell board (int k) (int c)) [0..<length (board ! k)]"
      using True lt "1.prems" by (simp add: evolute_inner_row)
    finally show ?thesis using step by simp
  next
    case False
    then have "Suc i \<le> k" using "1.prems" by simp
    from "1.IH" [OF lt len this "1.prems"(3)] step show ?thesis by simp
  qed
qed

lemma length_Evolute: "length (Evolute board) = length board"
  by (simp add: Evolute_def length_evolute_outer)

lemma Evolute_row:
  "i < length board \<Longrightarrow>
   Evolute board ! i = map (\<lambda>c. next_cell board (int i) (int c)) [0..<length (board ! i)]"
  by (simp add: Evolute_def evolute_outer_row)

lemma Evolute_eq:
  "Evolute board =
     map (\<lambda>i. map (\<lambda>c. next_cell board (int i) (int c)) [0..<length (board ! i)])
       [0..<length board]"
  by (rule nth_equalityI) (simp_all add: length_Evolute Evolute_row)

subsection \<open>The shape of a new board\<close>

lemma map_length_update_cell: "map length (b[i := (b ! i)[j := v]]) = map length b"
proof (cases "i < length b")
  case True
  then have "(map length b)[i := length (b ! i)] = map length b"
    by (simp add: list_update_same_conv)
  then show ?thesis by (simp add: map_update)
next
  case False
  then have "b[i := (b ! i)[j := v]] = b"
    by (simp add: list_update_beyond)
  then show ?thesis by simp
qed

lemma NewBoard_cell_shape: "map length (fst (NewBoard_cell rnd i j bk)) = map length (fst bk)"
  by (simp add: NewBoard_cell_def split_beta map_length_update_cell)

lemma fold_NewBoard_cell_shape:
  "map length (fst (fold (NewBoard_cell rnd i) js bk)) = map length (fst bk)"
  by (induction js arbitrary: bk) (simp_all add: NewBoard_cell_shape)

lemma NewBoard_row_shape:
  "map length (fst (NewBoard_row rnd h i bk)) = (map length (fst bk))[i := h]"
  by (simp add: NewBoard_row_def split_beta fold_NewBoard_cell_shape map_update)

lemma fold_NewBoard_row_shape:
  "map length (fst (fold (NewBoard_row rnd h) is bk)) =
     fold (\<lambda>i ls. ls[i := h]) is (map length (fst bk))"
  by (induction "is" arbitrary: bk) (simp_all add: NewBoard_row_shape)

lemma fold_update_upt:
  "n \<le> length ls \<Longrightarrow> fold (\<lambda>i ls. ls[i := h]) [0..<n] ls = replicate n h @ drop n ls"
proof (induction n)
  case 0
  show ?case by simp
next
  case (Suc n)
  then have "fold (\<lambda>i ls. ls[i := h]) [0..<Suc n] ls = (replicate n h @ drop n ls)[n := h]"
    by simp
  also have "\<dots> = replicate n h @ (drop n ls)[0 := h]"
    by (simp add: list_update_append)
  also have "(drop n ls)[0 := h] = h # drop (Suc n) ls"
    using Suc.prems by (simp add: Cons_nth_drop_Suc [symmetric])
  finally show ?case by (simp add: replicate_append_same)
qed

lemma NewBoard_shape:
  assumes "make_len_ok 24 w" and "make_len_ok 1 h"
  shows "\<exists>b. NewBoard rnd w h = Inr b \<and> map length b = replicate (nat w) (nat h)"
  using assms
  by (simp add: NewBoard_def make_len_ok_def fold_NewBoard_row_shape fold_update_upt)

lemma NewBoard_len_out_of_range:
  "NewBoard rnd (- 1) 1 = Inl MakeLenOutOfRange \<and>
   NewBoard rnd (2 ^ 62) 1 = Inl MakeLenOutOfRange \<and>
   NewBoard rnd 1 (2 ^ 62) = Inl MakeLenOutOfRange"
  by (simp add: NewBoard_def make_len_ok_def)

subsection \<open>C1: the update rule\<close>

text \<open>
  Claim C1. For every grid and every cell inside it, the successor grid computed by
  \<open>Evolute\<close> has that cell live if and only if either the cell is live and has exactly
  2 or 3 live neighbours, or the cell is dead and has exactly 3 live neighbours. The
  neighbours are the eight adjacent positions, and a position outside the grid counts
  as dead (no wraparound): \<open>live_neighbours\<close> is the number of offsets in
  \<open>{-1,0,1} \<times> {-1,0,1}\<close>, other than \<open>(0,0)\<close>, that lead to a live position inside
  the grid.
\<close>

theorem Evolute_rule:
  assumes "i < length board" and "j < length (board ! i)"
  shows "Get (Evolute board) (int i) (int j) \<longleftrightarrow>
           (Get board (int i) (int j) \<and>
              (live_neighbours board (int i) (int j) = 2 \<or>
               live_neighbours board (int i) (int j) = 3)) \<or>
           (\<not> Get board (int i) (int j) \<and> live_neighbours board (int i) (int j) = 3)"
proof -
  have "Get (Evolute board) (int i) (int j) = next_cell board (int i) (int j)"
    using assms by (simp add: Get_def length_Evolute Evolute_row)
  then show ?thesis
    by (auto simp: next_cell_spec Get_alive)
qed

text \<open>
  The vertical blinker: the dead cell \<open>(1, 0)\<close> has the three live neighbours
  \<open>(0,1)\<close>, \<open>(1,1)\<close>, \<open>(2,1)\<close> and is born; its other five neighbours include three
  positions outside the grid.
\<close>

theorem Evolute_rule_witness:
  "(1::nat) < length [[False, True, False], [False, True, False], [False, True, False]] \<and>
   (0::nat) < length ([[False, True, False], [False, True, False], [False, True, False]] ! 1) \<and>
   \<not> Get [[False, True, False], [False, True, False], [False, True, False]] 1 0 \<and>
   live_neighbours [[False, True, False], [False, True, False], [False, True, False]] 1 0 = 3 \<and>
   Get (Evolute [[False, True, False], [False, True, False], [False, True, False]]) 1 0"
proof -
  let ?b = "[[False, True, False], [False, True, False], [False, True, False]]"
  have a: "(1::nat) < length ?b" and b: "(0::nat) < length (?b ! 1)"
    by simp_all
  have g: "\<not> Get ?b 1 0"
    by (simp add: Get_def)
  have n: "live_neighbours ?b 1 0 = 3"
    by code_simp
  from Evolute_rule [OF a b] g n have "Get (Evolute ?b) 1 0"
    by simp
  with a b g n show ?thesis by blast
qed

subsection \<open>The transform on the store\<close>

lemma cells_at_update_other:
  assumes "r \<noteq> Some ra"
  shows "cells_at (h\<lparr>row_arrays := (row_arrays h)[ra := xs]\<rparr>) r = cells_at h r"
proof (cases r)
  case None
  then show ?thesis by (simp add: cells_at_def)
next
  case (Some x)
  with assms have "ra \<noteq> x" by auto
  with Some show ?thesis by (simp add: cells_at_def)
qed

lemma board_of_update_other:
  assumes "Some ra \<notin> set (rows_at h board)"
  shows "board_of (h\<lparr>row_arrays := (row_arrays h)[ra := xs]\<rparr>) board = board_of h board"
proof -
  have "rows_at (h\<lparr>row_arrays := (row_arrays h)[ra := xs]\<rparr>) board = rows_at h board"
    by (simp add: rows_at_def split: option.splits)
  moreover have "cells_at (h\<lparr>row_arrays := (row_arrays h)[ra := xs]\<rparr>) r = cells_at h r"
    if "r \<in> set (rows_at h board)" for r
    using that assms by (intro cells_at_update_other) auto
  ultimately show ?thesis
    by (simp add: board_of_def)
qed

lemma Evolute_inner_st_result:
  assumes "i < length (rows_at h board)"
    and "i < length (rows_at h nb)"
    and "rows_at h nb ! i = Some ra"
    and "ra < length (row_arrays h)"
    and "length (row_arrays h ! ra) = length (cells_at h (rows_at h board ! i))"
    and "j \<le> length (row_arrays h ! ra)"
    and "Some ra \<notin> set (rows_at h board)"
  shows "Evolute_inner_st h board nb i j =
           Inr (h\<lparr>row_arrays := (row_arrays h)[ra :=
                   take j (row_arrays h ! ra) @
                   map (\<lambda>c. next_cell (board_of h board) (int i) (int c))
                     [j..<length (row_arrays h ! ra)]]\<rparr>)"
  using assms
proof (induction h board nb i j rule: Evolute_inner_st.induct)
  case (1 h board nb i j)
  let ?m = "length (row_arrays h ! ra)"
  let ?B = "board_of h board"
  show ?case
  proof (cases "j < ?m")
    case False
    with "1.prems" have "j = ?m" by simp
    with "1.prems" show ?thesis
      by (subst Evolute_inner_st.simps) (simp add: list_update_same_conv)
  next
    case True
    let ?v = "next_cell ?B (int i) (int j)"
    let ?h1 = "h\<lparr>row_arrays := (row_arrays h)[ra := (row_arrays h ! ra)[j := ?v]]\<rparr>"
    have sc: "set_cell h (rows_at h nb ! i) j ?v = Inr ?h1"
      using "1.prems" True by (simp add: set_cell_def)
    have rows: "rows_at ?h1 b = rows_at h b" for b
      by (simp add: rows_at_def split: option.splits)
    have B: "board_of ?h1 board = ?B"
      using "1.prems"(7) by (rule board_of_update_other)
    have ne: "rows_at h board ! i \<noteq> Some ra"
      using "1.prems"(1,7) by (metis nth_mem)
    have cells: "cells_at ?h1 (rows_at h board ! i) = cells_at h (rows_at h board ! i)"
      using ne by (rule cells_at_update_other)
    have lt: "j < length (cells_at h (rows_at h board ! i))"
      using True "1.prems"(5) by simp
    have rec: "Evolute_inner_st ?h1 board nb i (Suc j) =
        Inr (?h1\<lparr>row_arrays := (row_arrays ?h1)[ra :=
               take (Suc j) (row_arrays ?h1 ! ra) @
               map (\<lambda>c. next_cell (board_of ?h1 board) (int i) (int c))
                 [Suc j..<length (row_arrays ?h1 ! ra)]]\<rparr>)"
    proof (rule "1.IH" [of ?v ?h1])
      show "\<not> length (rows_at h board) \<le> i" using "1.prems"(1) by simp
      show "j < length (cells_at h (rows_at h board ! i))" by (rule lt)
      show "?v = next_cell (board_of h board) (int i) (int j)" by simp
      show "\<not> length (rows_at h nb) \<le> i" using "1.prems"(2) by simp
      show "set_cell h (rows_at h nb ! i) j ?v = Inr ?h1" by (rule sc)
      show "i < length (rows_at ?h1 board)" using "1.prems"(1) by (simp add: rows)
      show "i < length (rows_at ?h1 nb)" using "1.prems"(2) by (simp add: rows)
      show "rows_at ?h1 nb ! i = Some ra" using "1.prems"(3) by (simp add: rows)
      show "ra < length (row_arrays ?h1)" using "1.prems"(4) by simp
      show "length (row_arrays ?h1 ! ra) = length (cells_at ?h1 (rows_at ?h1 board ! i))"
        using "1.prems"(4,5) by (simp add: rows cells)
      show "Suc j \<le> length (row_arrays ?h1 ! ra)" using True "1.prems"(4) by simp
      show "Some ra \<notin> set (rows_at ?h1 board)" using "1.prems"(7) by (simp add: rows)
    qed
    have "Evolute_inner_st h board nb i j = Evolute_inner_st ?h1 board nb i (Suc j)"
      using "1.prems"(1,2) lt sc by (subst Evolute_inner_st.simps) (simp add: Let_def)
    also note rec
    also have "?h1\<lparr>row_arrays := (row_arrays ?h1)[ra :=
               take (Suc j) (row_arrays ?h1 ! ra) @
               map (\<lambda>c. next_cell (board_of ?h1 board) (int i) (int c))
                 [Suc j..<length (row_arrays ?h1 ! ra)]]\<rparr> =
        h\<lparr>row_arrays := (row_arrays h)[ra :=
               take j (row_arrays h ! ra) @
               map (\<lambda>c. next_cell ?B (int i) (int c)) [j..<?m]]\<rparr>"
      using True "1.prems"(4)
      by (simp add: B take_Suc_conv_app_nth upt_conv_Cons)
    finally show ?thesis .
  qed
qed


lemma cells_at_grown:
  assumes "allocated h r"
  shows "cells_at (h\<lparr>row_arrays := row_arrays h @ ys, board_arrays := bs\<rparr>) r = cells_at h r"
  using assms by (cases r) (simp_all add: cells_at_def allocated_def nth_append)

lemma rows_at_other:
  assumes "board \<noteq> Some a"
  shows "rows_at (h\<lparr>row_arrays := rs, board_arrays := (board_arrays h)[a := xs]\<rparr>) board =
           rows_at h board"
proof (cases board)
  case None
  then show ?thesis by (simp add: rows_at_def)
next
  case (Some b)
  with assms have "a \<noteq> b" by auto
  with Some show ?thesis by (simp add: rows_at_def)
qed

lemma board_of_grown:
  assumes "board \<noteq> Some a" and "list_all (allocated h) (rows_at h board)"
  shows "board_of (h\<lparr>row_arrays := row_arrays h @ ys,
                     board_arrays := (board_arrays h)[a := xs]\<rparr>) board = board_of h board"
proof -
  have "cells_at (h\<lparr>row_arrays := row_arrays h @ ys,
                    board_arrays := (board_arrays h)[a := xs]\<rparr>) r = cells_at h r"
    if "r \<in> set (rows_at h board)" for r
    using that assms(2) by (intro cells_at_grown) (simp add: list_all_iff)
  then show ?thesis
    using assms(1) by (simp add: board_of_def rows_at_other)
qed

lemma Evolute_outer_st_result:
  assumes "d = len - i"
    and "length (rows_at h board) = len"
    and "a < length (board_arrays h)" and "length (board_arrays h ! a) = len"
    and "board \<noteq> Some a"
    and "list_all (allocated h) (rows_at h board)"
    and "i \<le> len"
  shows "Evolute_outer_st h board (Some a) i =
     Inr (h\<lparr>row_arrays := row_arrays h @
                map (\<lambda>k. map (\<lambda>c. next_cell (board_of h board) (int k) (int c))
                            [0..<length (board_of h board ! k)]) [i..<len],
            board_arrays := (board_arrays h)[a := take i (board_arrays h ! a) @
                map Some [length (row_arrays h)..<length (row_arrays h) + (len - i)]]\<rparr>)"
  using assms
proof (induction d arbitrary: h i)
  case 0
  then have "i = len" by simp
  with 0 show ?case
    by (subst Evolute_outer_st.simps) (simp add: list_update_same_conv)
next
  case (Suc d)
  let ?B = "board_of h board"
  let ?X = "board_arrays h ! a"
  let ?n = "length (row_arrays h)"
  let ?m = "length (cells_at h (rows_at h board ! i))"
  let ?row = "\<lambda>k. map (\<lambda>c. next_cell ?B (int k) (int c)) [0..<length (?B ! k)]"
  from Suc.prems have lt: "i < len" by simp
  have m: "?m = length (?B ! i)"
    using lt Suc.prems(2) by (simp add: board_of_def)
  let ?h1 = "h\<lparr>row_arrays := row_arrays h @ [replicate ?m False]\<rparr>"
  let ?h2 = "h\<lparr>row_arrays := row_arrays h @ [replicate ?m False],
               board_arrays := (board_arrays h)[a := ?X[i := Some ?n]]\<rparr>"
  let ?h3 = "h\<lparr>row_arrays := row_arrays h @ [?row i],
               board_arrays := (board_arrays h)[a := ?X[i := Some ?n]]\<rparr>"
  have mk: "make_cells h ?m = (?h1, Some ?n)"
    by (simp add: make_cells_def)
  have st: "set_row ?h1 (Some a) i (Some ?n) = Inr ?h2"
    using Suc.prems(3,4) lt by (simp add: set_row_def)
  have rows2: "rows_at ?h2 board = rows_at h board"
    using Suc.prems(5) by (rule rows_at_other)
  have B2: "board_of ?h2 board = ?B"
    using Suc.prems(5,6) by (rule board_of_grown)
  have nb2: "rows_at ?h2 (Some a) = ?X[i := Some ?n]"
    using Suc.prems(3) by (simp add: rows_at_def)
  have fresh: "Some ?n \<notin> set (rows_at h board)"
    using Suc.prems(6) by (auto simp: list_all_iff allocated_def)
  have al_i: "allocated h (rows_at h board ! i)"
    using Suc.prems(2,6) lt by (simp add: list_all_length)
  have c2: "cells_at ?h2 (rows_at h board ! i) = cells_at h (rows_at h board ! i)"
    using al_i by (rule cells_at_grown)
  have inn: "Evolute_inner_st ?h2 board (Some a) i 0 =
      Inr (?h2\<lparr>row_arrays := (row_arrays ?h2)[?n :=
              take 0 (row_arrays ?h2 ! ?n) @
              map (\<lambda>c. next_cell (board_of ?h2 board) (int i) (int c))
                [0..<length (row_arrays ?h2 ! ?n)]]\<rparr>)"
  proof (rule Evolute_inner_st_result)
    show "i < length (rows_at ?h2 board)" using lt Suc.prems(2) by (simp add: rows2)
    show "i < length (rows_at ?h2 (Some a))" using lt Suc.prems(4) by (simp add: nb2)
    show "rows_at ?h2 (Some a) ! i = Some ?n" using lt Suc.prems(4) by (simp add: nb2)
    show "?n < length (row_arrays ?h2)" by simp
    show "length (row_arrays ?h2 ! ?n) = length (cells_at ?h2 (rows_at ?h2 board ! i))"
      by (simp add: rows2 c2)
    show "0 \<le> length (row_arrays ?h2 ! ?n)" by simp
    show "Some ?n \<notin> set (rows_at ?h2 board)" using fresh by (simp add: rows2)
  qed
  have h3: "?h2\<lparr>row_arrays := (row_arrays ?h2)[?n :=
              take 0 (row_arrays ?h2 ! ?n) @
              map (\<lambda>c. next_cell (board_of ?h2 board) (int i) (int c))
                [0..<length (row_arrays ?h2 ! ?n)]]\<rparr> = ?h3"
    unfolding B2 by (simp add: m)
  have step: "Evolute_outer_st h board (Some a) i = Evolute_outer_st ?h3 board (Some a) (Suc i)"
    using lt Suc.prems(2) mk st inn h3
    by (subst Evolute_outer_st.simps) simp
  have rows3: "rows_at ?h3 board = rows_at h board"
    using Suc.prems(5) by (rule rows_at_other)
  have B3: "board_of ?h3 board = ?B"
    using Suc.prems(5,6) by (rule board_of_grown)
  have rec: "Evolute_outer_st ?h3 board (Some a) (Suc i) =
     Inr (?h3\<lparr>row_arrays := row_arrays ?h3 @
                map (\<lambda>k. map (\<lambda>c. next_cell (board_of ?h3 board) (int k) (int c))
                            [0..<length (board_of ?h3 board ! k)]) [Suc i..<len],
            board_arrays := (board_arrays ?h3)[a := take (Suc i) (board_arrays ?h3 ! a) @
                map Some [length (row_arrays ?h3)..<length (row_arrays ?h3) + (len - Suc i)]]\<rparr>)"
  proof (rule Suc.IH)
    show "d = len - Suc i" using Suc.prems(1) by simp
    show "length (rows_at ?h3 board) = len" using Suc.prems(2) by (simp add: rows3)
    show "a < length (board_arrays ?h3)" using Suc.prems(3) by simp
    show "length (board_arrays ?h3 ! a) = len" using Suc.prems(3,4) by simp
    show "board \<noteq> Some a" by (rule Suc.prems(5))
    show "list_all (allocated ?h3) (rows_at ?h3 board)"
      using Suc.prems(6) by (auto simp: rows3 list_all_iff allocated_def split: option.splits)
    show "Suc i \<le> len" using lt by simp
  qed
  have fin: "?h3\<lparr>row_arrays := row_arrays ?h3 @
                map (\<lambda>k. map (\<lambda>c. next_cell (board_of ?h3 board) (int k) (int c))
                            [0..<length (board_of ?h3 board ! k)]) [Suc i..<len],
            board_arrays := (board_arrays ?h3)[a := take (Suc i) (board_arrays ?h3 ! a) @
                map Some [length (row_arrays ?h3)..<length (row_arrays ?h3) + (len - Suc i)]]\<rparr>
      = h\<lparr>row_arrays := row_arrays h @ map ?row [i..<len],
           board_arrays := (board_arrays h)[a := take i ?X @
                map Some [?n..<?n + (len - i)]]\<rparr>"
  proof -
    have 1: "[i..<len] = i # [Suc i..<len]"
      using lt by (simp add: upt_conv_Cons)
    have e: "?n + (len - i) = Suc ?n + (len - Suc i)"
      using lt by simp
    have 2: "[?n..<?n + (len - i)] = ?n # [Suc ?n..<Suc ?n + (len - Suc i)]"
      by (subst e) (rule upt_conv_Cons, simp)
    have 3: "take (Suc i) (?X[i := Some ?n]) = take i ?X @ [Some ?n]"
      using lt Suc.prems(4) by (simp add: take_Suc_conv_app_nth)
    show ?thesis
      using Suc.prems(3) by (simp add: B3 1 2 3)
  qed
  from step rec fin show ?case by simp
qed


lemma valid_board_rows: "valid_board h board \<Longrightarrow> list_all (allocated h) (rows_at h board)"
  by (cases board) (simp_all add: valid_board_def rows_at_def)

lemma valid_board_below: "valid_board h board \<Longrightarrow> board \<noteq> Some (length (board_arrays h))"
  by (auto simp: valid_board_def)

lemma rows_at_make_rows:
  "valid_board h board \<Longrightarrow>
   rows_at (h\<lparr>board_arrays := board_arrays h @ ys\<rparr>) board = rows_at h board"
  by (cases board) (simp_all add: valid_board_def rows_at_def nth_append)

lemma cells_at_make_rows: "cells_at (h\<lparr>board_arrays := bs\<rparr>) r = cells_at h r"
  by (simp add: cells_at_def split: option.splits)

lemma allocated_make_rows: "allocated (h\<lparr>board_arrays := bs\<rparr>) = allocated h"
  by (rule ext) (simp add: allocated_def split: option.splits)

lemma board_of_make_rows:
  "valid_board h board \<Longrightarrow>
   board_of (h\<lparr>board_arrays := board_arrays h @ ys\<rparr>) board = board_of h board"
  by (simp add: board_of_def rows_at_make_rows cells_at_make_rows)

lemma Evolute_st_result:
  assumes "valid_board h board"
  shows "Evolute_st h board =
     Inr (h\<lparr>row_arrays := row_arrays h @ Evolute (board_of h board),
            board_arrays := board_arrays h @
              [map Some [length (row_arrays h)..<
                         length (row_arrays h) + length (rows_at h board)]]\<rparr>,
          Some (length (board_arrays h)))"
proof -
  let ?len = "length (rows_at h board)"
  let ?a = "length (board_arrays h)"
  let ?h0 = "h\<lparr>board_arrays := board_arrays h @ [replicate ?len None]\<rparr>"
  let ?B = "board_of h board"
  have mk: "make_rows h ?len = (?h0, Some ?a)"
    by (simp add: make_rows_def)
  have rows0: "rows_at ?h0 board = rows_at h board"
    using assms by (rule rows_at_make_rows)
  have B0: "board_of ?h0 board = ?B"
    using assms by (rule board_of_make_rows)
  have out: "Evolute_outer_st ?h0 board (Some ?a) 0 =
     Inr (?h0\<lparr>row_arrays := row_arrays ?h0 @
                map (\<lambda>k. map (\<lambda>c. next_cell (board_of ?h0 board) (int k) (int c))
                            [0..<length (board_of ?h0 board ! k)]) [0..<?len],
            board_arrays := (board_arrays ?h0)[?a := take 0 (board_arrays ?h0 ! ?a) @
                map Some [length (row_arrays ?h0)..<length (row_arrays ?h0) + (?len - 0)]]\<rparr>)"
  proof (rule Evolute_outer_st_result)
    show "?len = ?len - 0" by simp
    show "length (rows_at ?h0 board) = ?len" by (simp add: rows0)
    show "?a < length (board_arrays ?h0)" by simp
    show "length (board_arrays ?h0 ! ?a) = ?len" by simp
    show "board \<noteq> Some ?a" using assms by (rule valid_board_below)
    show "list_all (allocated ?h0) (rows_at ?h0 board)"
      using assms by (simp add: rows0 allocated_make_rows valid_board_rows)
    show "0 \<le> ?len" by simp
  qed
  have len: "length ?B = ?len"
    by (simp add: board_of_def)
  have ev: "map (\<lambda>k. map (\<lambda>c. next_cell ?B (int k) (int c)) [0..<length (?B ! k)]) [0..<?len]
      = Evolute ?B"
    by (simp add: Evolute_eq len)
  have fin: "?h0\<lparr>row_arrays := row_arrays ?h0 @
                map (\<lambda>k. map (\<lambda>c. next_cell (board_of ?h0 board) (int k) (int c))
                            [0..<length (board_of ?h0 board ! k)]) [0..<?len],
            board_arrays := (board_arrays ?h0)[?a := take 0 (board_arrays ?h0 ! ?a) @
                map Some [length (row_arrays ?h0)..<length (row_arrays ?h0) + (?len - 0)]]\<rparr>
      = h\<lparr>row_arrays := row_arrays h @ Evolute ?B,
           board_arrays := board_arrays h @
              [map Some [length (row_arrays h)..<length (row_arrays h) + ?len]]\<rparr>"
    unfolding B0 ev by simp
  show ?thesis
    unfolding Evolute_st_def mk using out fin by simp
qed

lemma Evolute_shape: "map length (Evolute b) = map length b"
  by (rule nth_equalityI) (simp_all add: length_Evolute Evolute_row)

lemma Evolute_funpow_shape: "map length ((Evolute ^^ n) b) = map length b"
  by (induction n) (simp_all add: Evolute_shape)

text \<open>
  Claim C8. For every grid held in memory, \<open>Evolute\<close> returns (it does not panic) a
  grid in memory that was not in use before: a new backing array for the board and a
  new one for each row, all different. The new grid has as many rows as the input and
  each row has the length of the input's row. Every array the store had keeps its
  content, so the input grid reads as before. The new grid is the list-level
  \<open>Evolute\<close> of the input, and under any number of ticks the row lengths stay what
  they are: the grid of the program, which \<^verbatim>\<open>NewBoard(80, 60)\<close> creates with 80 rows
  of 60 cells, has 80 rows of 60 cells after every number of ticks.
\<close>

theorem Evolute_fresh_same_shape:
  assumes "valid_board h board"
  shows "(\<exists>h' a. Evolute_st h board = Inr (h', Some a) \<and>
           a = length (board_arrays h) \<and>
           rows_at h' (Some a) =
             map Some [length (row_arrays h)..<length (row_arrays h) + length (rows_at h board)] \<and>
           take (length (row_arrays h)) (row_arrays h') = row_arrays h \<and>
           take (length (board_arrays h)) (board_arrays h') = board_arrays h \<and>
           board_of h' board = board_of h board \<and>
           board_of h' (Some a) = Evolute (board_of h board) \<and>
           length (board_of h' (Some a)) = length (board_of h board) \<and>
           map length (board_of h' (Some a)) = map length (board_of h board) \<and>
           map length ((Evolute ^^ n) (board_of h board)) = map length (board_of h board)) \<and>
         (\<exists>b. NewBoard rnd 80 60 = Inr b \<and>
              map length ((Evolute ^^ n) b) = replicate 80 60)"
proof -
  let ?n = "length (row_arrays h)"
  let ?len = "length (rows_at h board)"
  let ?B = "board_of h board"
  let ?h' = "h\<lparr>row_arrays := row_arrays h @ Evolute ?B,
               board_arrays := board_arrays h @ [map Some [?n..<?n + ?len]]\<rparr>"
  let ?a = "length (board_arrays h)"
  have r: "Evolute_st h board = Inr (?h', Some ?a)"
    using assms by (rule Evolute_st_result)
  have rows: "rows_at ?h' (Some ?a) = map Some [?n..<?n + ?len]"
    by (simp add: rows_at_def)
  have old: "board_of ?h' board = ?B"
  proof -
    have "rows_at ?h' board = rows_at h board"
      using assms by (cases board) (simp_all add: valid_board_def rows_at_def nth_append)
    moreover have "cells_at ?h' x = cells_at h x" if "x \<in> set (rows_at h board)" for x
    proof -
      from that valid_board_rows [OF assms] have "allocated h x"
        by (simp add: list_all_iff)
      then show ?thesis by (rule cells_at_grown)
    qed
    ultimately show ?thesis by (simp add: board_of_def)
  qed
  have len: "length ?B = ?len"
    by (simp add: board_of_def)
  have bo: "board_of ?h' (Some ?a) = map (cells_at ?h') (map Some [?n..<?n + ?len])"
    by (simp only: board_of_def [of ?h' "Some ?a"] rows)
  have cell: "cells_at ?h' (Some (?n + k)) = Evolute ?B ! k" if "k < ?len" for k
    using that by (simp add: cells_at_def length_Evolute len nth_append)
  have new: "board_of ?h' (Some ?a) = Evolute ?B"
  proof (rule nth_equalityI)
    show "length (board_of ?h' (Some ?a)) = length (Evolute ?B)"
      by (simp add: bo length_Evolute len)
    show "board_of ?h' (Some ?a) ! k = Evolute ?B ! k" if "k < length (board_of ?h' (Some ?a))" for k
      using that by (simp add: bo cell)
  qed
  have created: "\<exists>b. NewBoard rnd 80 60 = Inr b \<and>
      map length ((Evolute ^^ n) b) = replicate 80 60"
    using NewBoard_shape [of 80 60 rnd]
    by (auto simp: make_len_ok_def Evolute_funpow_shape)
  from r rows old new have "\<exists>h' a. Evolute_st h board = Inr (h', Some a) \<and>
           a = length (board_arrays h) \<and>
           rows_at h' (Some a) =
             map Some [length (row_arrays h)..<length (row_arrays h) + length (rows_at h board)] \<and>
           take (length (row_arrays h)) (row_arrays h') = row_arrays h \<and>
           take (length (board_arrays h)) (board_arrays h') = board_arrays h \<and>
           board_of h' board = board_of h board \<and>
           board_of h' (Some a) = Evolute (board_of h board) \<and>
           length (board_of h' (Some a)) = length (board_of h board) \<and>
           map length (board_of h' (Some a)) = map length (board_of h board) \<and>
           map length ((Evolute ^^ n) (board_of h board)) = map length (board_of h board)"
    by (simp add: length_Evolute Evolute_shape Evolute_funpow_shape)
  with created show ?thesis by blast
qed

text \<open>
  The board of \<open>sample_store\<close>: its dead corner is born, the new grid lies in the new
  arrays 2 and 3, and the input still reads the same.
\<close>

theorem Evolute_fresh_same_shape_witness:
  "valid_board sample_store (Some 0) \<and>
   board_of sample_store (Some 0) = [[False, True], [True, True]] \<and>
   (\<exists>h'. Evolute_st sample_store (Some 0) = Inr (h', Some 1) \<and>
         rows_at h' (Some 1) = [Some 2, Some 3] \<and>
         board_of h' (Some 0) = [[False, True], [True, True]] \<and>
         board_of h' (Some 1) = [[True, True], [True, True]]) \<and>
   (\<exists>b. NewBoard (\<lambda>k. int k) 80 60 = Inr b \<and>
        map length ((Evolute ^^ 4) b) = replicate 80 60)"
proof -
  have v: "valid_board sample_store (Some 0)"
    by (simp add: valid_board_def allocated_def sample_store_def)
  have b: "board_of sample_store (Some 0) = [[False, True], [True, True]]"
    by (simp add: board_of_def rows_at_def cells_at_def sample_store_def)
  have e: "Evolute [[False, True], [True, True]] = [[True, True], [True, True]]"
    by code_simp
  have n: "length (row_arrays sample_store) = 2" "length (board_arrays sample_store) = 1"
    "length (rows_at sample_store (Some 0)) = 2"
    by (simp_all add: sample_store_def rows_at_def)
  have u: "[2..<4] = [2, 3::nat]"
    by (simp add: upt_rec)
  note t = Evolute_fresh_same_shape [OF v, where n = 4 and rnd = "\<lambda>k. int k"]
  from t obtain h' a where
    "Evolute_st sample_store (Some 0) = Inr (h', Some a)" "a = 1"
    "rows_at h' (Some a) = map Some [2..<2 + 2]"
    "board_of h' (Some 0) = board_of sample_store (Some 0)"
    "board_of h' (Some a) = Evolute (board_of sample_store (Some 0))"
    unfolding n by auto
  with b e u have 1: "\<exists>h'. Evolute_st sample_store (Some 0) = Inr (h', Some 1) \<and>
         rows_at h' (Some 1) = [Some 2, Some 3] \<and>
         board_of h' (Some 0) = [[False, True], [True, True]] \<and>
         board_of h' (Some 1) = [[True, True], [True, True]]"
    by auto
  from t have 2: "\<exists>b. NewBoard (\<lambda>k. int k) 80 60 = Inr b \<and>
      map length ((Evolute ^^ 4) b) = replicate 80 60"
    by simp
  from v b 1 2 show ?thesis by simp
qed

section \<open>Properties of the hubs\<close>

subsection \<open>The fan-out\<close>

lemma select_send_default_idem:
  "select_send_default (select_send_default s v) v = select_send_default s v"
  by (simp add: select_send_default_def chan_send_def)

lemma select_send_default_busy: "\<not> waiting s \<Longrightarrow> select_send_default s v = s"
  by (simp add: select_send_default_def chan_send_def)

lemma select_send_default_ok: "sink_ok s \<Longrightarrow> sink_ok (select_send_default s v)"
  by (auto simp: sink_ok_def select_send_default_def chan_send_def split: if_splits)

lemma offer_fold_at:
  "fold (offer v) cs sinks c =
     (if c \<in> set cs then select_send_default (sinks c) v else sinks c)"
proof (induction cs arbitrary: sinks)
  case Nil
  show ?case by simp
next
  case (Cons x cs)
  have "fold (offer v) (x # cs) sinks c = fold (offer v) cs (offer v x sinks) c"
    by simp
  also have "\<dots> = (if c \<in> set cs then select_send_default (offer v x sinks c) v
                     else offer v x sinks c)"
    by (rule Cons.IH)
  also have "\<dots> = (if c \<in> set (x # cs) then select_send_default (sinks c) v else sinks c)"
    by (simp add: offer_def select_send_default_idem)
  finally show ?case .
qed

lemma publish_at:
  "publish chs v sinks c =
     (if c \<in> fst ` set chs then select_send_default (sinks c) v else sinks c)"
  by (simp add: publish_def offer_fold_at)

lemma publish_ok: "sink_ok (sinks c) \<Longrightarrow> sink_ok (publish chs v sinks c)"
  by (simp add: publish_at select_send_default_ok)

lemma publish_busy: "\<not> waiting (sinks c) \<Longrightarrow> publish chs v sinks c = sinks c"
  by (simp add: publish_at select_send_default_busy)

lemma publish_all_busy: "\<not> waiting (sinks c) \<Longrightarrow> publish_all chs vs sinks c = sinks c"
  unfolding publish_all_def
  by (induction vs arbitrary: sinks) (simp_all add: publish_busy)

lemma sink_step_ok: "sink_ok (sinks c) \<Longrightarrow> sink_ok (sink_step ev sinks c)"
  by (cases ev) (simp_all add: publish_ok, simp add: sink_ok_def session_receive_def)

lemma fold_sink_step_ok: "sink_ok (sinks c) \<Longrightarrow> sink_ok (fold sink_step evs sinks c)"
  by (induction evs arbitrary: sinks) (simp_all add: sink_step_ok)

lemma sinks_after_ok: "sink_ok (sinks_after evs c)"
  unfolding sinks_after_def
  by (rule fold_sink_step_ok) (simp add: sink_ok_def make_chan_def)

text \<open>
  Claim C2. A publish hands the frame to a sink only if the sink's channel can take it
  at once, and otherwise skips that sink for this cycle: the sink of a member whose
  session is waiting passes to the state after the hand-over, every other sink is left
  as it was. The publish is a function of the sinks with a result for every state of
  them: a sink that cannot take the frame takes the default case, so it does not
  block. Whatever the hubs publish and the sessions receive, from the creation of the
  channels on, no sink ever holds more than one frame; and while a sink's session has
  not come back to its receive, publishing any number of frames leaves the sink
  exactly as it was.
\<close>

theorem publish_nonblocking:
  "publish chs v sinks c =
     (if c \<in> fst ` set chs \<and> waiting (sinks c)
      then (sinks c)\<lparr>waiting := False, got := got (sinks c) @ [v]\<rparr>
      else sinks c) \<and>
   length (got (sinks_after evs c)) \<le> 1 \<and>
   (\<not> waiting (sinks c) \<longrightarrow> publish_all chs vs sinks c = sinks c)"
proof (intro conjI impI)
  show "publish chs v sinks c =
     (if c \<in> fst ` set chs \<and> waiting (sinks c)
      then (sinks c)\<lparr>waiting := False, got := got (sinks c) @ [v]\<rparr>
      else sinks c)"
    by (simp add: publish_at select_send_default_def chan_send_def)
  show "length (got (sinks_after evs c)) \<le> 1"
    using sinks_after_ok [of evs c] by (simp add: sink_ok_def)
  show "publish_all chs vs sinks c = sinks c" if "\<not> waiting (sinks c)"
    using that by (rule publish_all_busy)
qed

text \<open>
  Channel 0 is a member whose session still holds \<open>frame_a\<close>: three more frames are
  published and the sink holds \<open>frame_a\<close> and nothing else.
\<close>

theorem publish_nonblocking_witness:
  "\<not> waiting (((\<lambda>c. make_chan)(0 := \<lparr>waiting = False, got = [frame_a]\<rparr>)) 0) \<and>
   got (publish_all [(0, ())] [frame_b, frame_b, frame_b]
          ((\<lambda>c. make_chan)(0 := \<lparr>waiting = False, got = [frame_a]\<rparr>)) 0) = [frame_a]"
  using publish_nonblocking [of "[(0, ())]" frame_b
      "(\<lambda>c. make_chan)(0 := \<lparr>waiting = False, got = [frame_a]\<rparr>)" 0 "[]"
      "[frame_b, frame_b, frame_b]"]
  by simp

subsection \<open>Membership\<close>

lemma viewers_pass:
  "viewers (ViewersRender_pass lib ev s) =
     (case ev of Join c \<Rightarrow> AList.update c () (viewers s)
               | Leave c \<Rightarrow> AList.delete c (viewers s)
               | Tick \<Rightarrow> viewers s)"
  by (simp add: ViewersRender_pass_def Let_def)

lemma game_unregister_funpow:
  "(snd (GameRender_Register c r) ^^ Suc n) r' = snd (GameRender_Register c r) r'"
  by (induction n) (simp_all add: GameRender_Register_def AList.delete_idem)

lemma viewers_leave_funpow:
  "viewers ((ViewersRender_pass lib (Leave c) ^^ Suc n) s') = AList.delete c (viewers s')"
  by (induction n) (simp_all add: viewers_pass AList.delete_idem)

text \<open>
  Claim C6. For every hub and every sink, calling the closure returned by \<open>Register\<close>
  several times (\<open>n + 1\<close> times, on whatever state the hub is in by then) leaves the
  membership as one call does. For the simulation hub the whole hub is the same; for
  the viewer-count hub, whose every pass also publishes, the map \<open>viewers\<close> is the same.
\<close>

theorem unregister_idempotent:
  "(snd (GameRender_Register c r) ^^ Suc n) r' = snd (GameRender_Register c r) r' \<and>
   viewers ((snd (ViewersRender_Register lib c s) ^^ Suc n) s') =
     viewers (snd (ViewersRender_Register lib c s) s')"
proof
  show "(snd (GameRender_Register c r) ^^ Suc n) r' = snd (GameRender_Register c r) r'"
    by (rule game_unregister_funpow)
  have "snd (ViewersRender_Register lib c s) = ViewersRender_pass lib (Leave c)"
    by (simp add: ViewersRender_Register_def)
  then show "viewers ((snd (ViewersRender_Register lib c s) ^^ Suc n) s') =
      viewers (snd (ViewersRender_Register lib c s) s')"
    using viewers_leave_funpow [where lib = lib and c = c and n = n and s' = s']
    by (simp add: viewers_pass)
qed

text \<open>
  Claim C7. For every hub state and every sink that is not a member, \<open>Register\<close> with
  that sink followed at once by the returned closure gives back the membership there
  was before, and so its count: the simulation hub is the hub it was, and the map
  \<open>viewers\<close> of the viewer-count hub is the map it was.
\<close>

theorem register_then_unregister:
  assumes "c \<notin> fst ` set (gameChs r)" and "c \<notin> fst ` set (viewers s)"
  shows "snd (GameRender_Register c r) (fst (GameRender_Register c r)) = r \<and>
         viewers (snd (ViewersRender_Register lib c s) (fst (ViewersRender_Register lib c s)))
           = viewers s \<and>
         length (viewers (snd (ViewersRender_Register lib c s)
                   (fst (ViewersRender_Register lib c s)))) = length (viewers s)"
proof -
  have "AList.delete c (AList.update c () (gameChs r)) = gameChs r"
    using assms(1) by (simp add: AList.delete_update_same)
  then have g: "snd (GameRender_Register c r) (fst (GameRender_Register c r)) = r"
    by (simp add: GameRender_Register_def)
  have "AList.delete c (AList.update c () (viewers s)) = viewers s"
    using assms(2) by (simp add: AList.delete_update_same)
  then have v: "viewers (snd (ViewersRender_Register lib c s)
      (fst (ViewersRender_Register lib c s))) = viewers s"
    by (simp add: ViewersRender_Register_def viewers_pass)
  from g v show ?thesis by simp
qed

text \<open>Both hubs have the member 0; channel 1 joins and leaves.\<close>

theorem register_then_unregister_witness:
  "(1::nat) \<notin> fst ` set (gameChs \<lparr>gameChs = [(0, ())]\<rparr>) \<and>
   (1::nat) \<notin> fst ` set (viewers \<lparr>viewers = [(0, ())], vs_sinks = (\<lambda>c. make_chan)\<rparr>) \<and>
   gameChs (fst (GameRender_Register 1 \<lparr>gameChs = [(0, ())]\<rparr>)) = [(0, ()), (1, ())] \<and>
   snd (GameRender_Register 1 \<lparr>gameChs = [(0, ())]\<rparr>)
     (fst (GameRender_Register 1 \<lparr>gameChs = [(0, ())]\<rparr>)) = \<lparr>gameChs = [(0, ())]\<rparr> \<and>
   viewers (snd (ViewersRender_Register sample_svgo 1
               \<lparr>viewers = [(0, ())], vs_sinks = (\<lambda>c. make_chan)\<rparr>)
             (fst (ViewersRender_Register sample_svgo 1
               \<lparr>viewers = [(0, ())], vs_sinks = (\<lambda>c. make_chan)\<rparr>))) = [(0, ())]"
proof -
  have a: "(1::nat) \<notin> fst ` set (gameChs \<lparr>gameChs = [(0, ())]\<rparr>)"
    by simp
  have b: "(1::nat) \<notin> fst ` set (viewers \<lparr>viewers = [(0, ())], vs_sinks = (\<lambda>c. make_chan)\<rparr>)"
    by simp
  have c: "gameChs (fst (GameRender_Register 1 \<lparr>gameChs = [(0, ())]\<rparr>)) = [(0, ()), (1, ())]"
    by (simp add: GameRender_Register_def)
  from register_then_unregister [OF a b, of sample_svgo] a b c show ?thesis
    by simp
qed

section \<open>Properties of the simulation loop\<close>

lemma idle_pass:
  "gameChs (gs_render s) = [] \<Longrightarrow>
   GameRender_pass lib s = Inr (s\<lparr>gs_effects := gs_effects s @ [Sleep 100]\<rparr>)"
  by (simp add: GameRender_pass_def)

lemma idle_passes:
  "gameChs (gs_render s) = [] \<Longrightarrow>
   GameRender_passes lib n s = Inr (s\<lparr>gs_effects := gs_effects s @ replicate n (Sleep 100)\<rparr>)"
proof (induction n arbitrary: s)
  case 0
  show ?case by simp
next
  case (Suc n)
  let ?s = "s\<lparr>gs_effects := gs_effects s @ [Sleep 100]\<rparr>"
  have "GameRender_passes lib (Suc n) s = GameRender_passes lib n ?s"
    using Suc.prems by (simp add: idle_pass)
  also have "\<dots> = Inr (?s\<lparr>gs_effects := gs_effects ?s @ replicate n (Sleep 100)\<rparr>)"
    using Suc.prems by (intro Suc.IH) simp
  finally show ?case by (simp add: replicate_append_same)
qed

text \<open>
  Claim C5. In every state of the simulation loop in which the hub has no sink, a pass
  of the loop only sleeps its 100 milliseconds: the board, the sinks, the number of
  \<open>Evolute\<close> calls and everything else stay as they are, and nothing is published. So
  do any \<open>n\<close> passes in a row; a loop started on a new hub has made no call of
  \<open>Evolute\<close> after them.
\<close>

theorem idle_without_sinks:
  assumes "gameChs (gs_render s) = []"
  shows "GameRender_pass lib s = Inr (s\<lparr>gs_effects := gs_effects s @ [Sleep 100]\<rparr>) \<and>
         GameRender_passes lib n s =
           Inr (s\<lparr>gs_effects := gs_effects s @ replicate n (Sleep 100)\<rparr>) \<and>
         GameRender_passes lib n (game_start b0 sinks) =
           Inr \<lparr>gs_render = NewGameRender, gs_board = b0, gs_sinks = sinks,
                gs_effects = replicate n (Sleep 100), gs_evolutions = 0\<rparr>"
proof -
  have "gameChs (gs_render (game_start b0 sinks)) = []"
    by (simp add: game_start_def NewGameRender_def)
  then have "GameRender_passes lib n (game_start b0 sinks) =
      Inr ((game_start b0 sinks)\<lparr>gs_effects :=
             gs_effects (game_start b0 sinks) @ replicate n (Sleep 100)\<rparr>)"
    by (rule idle_passes)
  then show ?thesis
    using assms by (simp add: idle_pass idle_passes game_start_def)
qed

text \<open>Five idle passes from the start, on a board of one live cell.\<close>

theorem idle_without_sinks_witness:
  "gameChs (gs_render (game_start [[True]] (\<lambda>c. make_chan))) = [] \<and>
   GameRender_passes sample_svgo 5 (game_start [[True]] (\<lambda>c. make_chan)) =
     Inr \<lparr>gs_render = NewGameRender, gs_board = [[True]], gs_sinks = (\<lambda>c. make_chan),
          gs_effects = [Sleep 100, Sleep 100, Sleep 100, Sleep 100, Sleep 100],
          gs_evolutions = 0\<rparr>"
proof -
  have a: "gameChs (gs_render (game_start [[True]] (\<lambda>c. make_chan))) = []"
    by (simp add: game_start_def NewGameRender_def)
  have r: "replicate 5 (Sleep 100) = [Sleep 100, Sleep 100, Sleep 100, Sleep 100, Sleep 100]"
    by (simp add: numeral_eq_Suc)
  from idle_without_sinks [OF a, of sample_svgo 5 "[[True]]" "\<lambda>c. make_chan"] a r
  show ?thesis by (simp add: game_start_def)
qed

subsection \<open>The encoder's error\<close>

lemma Svg_rows: "b \<noteq> [] \<Longrightarrow> \<exists>img. Svg lib b scale = Inr (img, None)"
  by (cases b) (simp_all add: Svg_def Let_def)

lemma Evolute_rows: "b \<noteq> [] \<Longrightarrow> Evolute b \<noteq> []"
  using length_Evolute [of b] by auto

text \<open>
  Claim C10, as the code has it. For every board with at least one row and every
  scale, \<open>Svg\<close> returns with the error \<open>nil\<close>. A simulation loop whose board has a row
  therefore never reaches the branch that prints an encoding error: each pass ends
  normally, after the idle sleep or after publishing and the one-second sleep, and
  leaves a board that has a row again. The board the loop starts with,
  \<^verbatim>\<open>NewBoard(80, 60)\<close>, has rows.
\<close>

theorem Svg_error_nil:
  assumes "b \<noteq> []"
  shows "(\<exists>img. Svg lib b scale = Inr (img, None)) \<and>
         (\<exists>s'. GameRender_pass lib (s\<lparr>gs_board := b\<rparr>) = Inr s' \<and> gs_board s' \<noteq> [] \<and>
               (gs_effects s' = gs_effects s @ [Sleep 100] \<or>
                gs_effects s' = gs_effects s @ [Sleep 1000])) \<and>
         (\<exists>b0. NewBoard rnd 80 60 = Inr b0 \<and> b0 \<noteq> [])"
proof (intro conjI)
  show "\<exists>b0. NewBoard rnd 80 60 = Inr b0 \<and> b0 \<noteq> []"
    using NewBoard_shape [of 80 60 rnd] by (auto simp: make_len_ok_def)
  show "\<exists>img. Svg lib b scale = Inr (img, None)"
    using assms by (rule Svg_rows)
  show "\<exists>s'. GameRender_pass lib (s\<lparr>gs_board := b\<rparr>) = Inr s' \<and> gs_board s' \<noteq> [] \<and>
               (gs_effects s' = gs_effects s @ [Sleep 100] \<or>
                gs_effects s' = gs_effects s @ [Sleep 1000])"
  proof (cases "gameChs (gs_render s) = []")
    case True
    then show ?thesis using assms by (simp add: GameRender_pass_def)
  next
    case False
    from assms have "Evolute b \<noteq> []" by (rule Evolute_rows)
    then obtain img where "Svg lib (Evolute b) 10 = Inr (img, None)"
      using Svg_rows by blast
    with False \<open>Evolute b \<noteq> []\<close> show ?thesis
      by (simp add: GameRender_pass_def Let_def)
  qed
qed

text \<open>
  The board of one live cell at scale 10, in a loop with the member 0 whose session
  is waiting: the pass publishes the frame and sleeps a second.
\<close>

theorem Svg_error_nil_witness:
  "[[True]] \<noteq> ([] :: Board) \<and>
   Svg sample_svgo [[True]] 10 =
     Inr (svg_Start sample_svgo 10 10 @
          svg_Rect sample_svgo 0 0 10 10 [''fill='' @ dquote @ ''black'' @ dquote] @
          svg_End sample_svgo, None) \<and>
   (\<exists>s'. GameRender_pass sample_svgo
            \<lparr>gs_render = \<lparr>gameChs = [(0, ())]\<rparr>, gs_board = [[True]],
             gs_sinks = (\<lambda>c. session_receive make_chan), gs_effects = [],
             gs_evolutions = 0\<rparr> = Inr s' \<and>
         gs_board s' \<noteq> [] \<and> gs_effects s' = [Sleep 1000])"
proof -
  let ?s = "\<lparr>gs_render = \<lparr>gameChs = [(0, ())]\<rparr>, gs_board = [[True]],
             gs_sinks = (\<lambda>c. session_receive make_chan), gs_effects = [],
             gs_evolutions = 0\<rparr>"
  have a: "[[True]] \<noteq> ([] :: Board)"
    by simp
  have v: "Svg sample_svgo [[True]] 10 =
     Inr (svg_Start sample_svgo 10 10 @
          svg_Rect sample_svgo 0 0 10 10 [''fill='' @ dquote @ ''black'' @ dquote] @
          svg_End sample_svgo, None)"
    by (simp add: Svg_def go_int_def)
  have e: "gs_effects s' \<noteq> [Sleep 100]" if "GameRender_pass sample_svgo ?s = Inr s'" for s'
    using that by (auto simp: GameRender_pass_def Let_def split: sum.splits prod.splits option.splits)
  from Svg_error_nil [OF a, where lib = sample_svgo and scale = 10 and s = ?s
      and rnd = "\<lambda>k. 0"] obtain s' where
    "GameRender_pass sample_svgo ?s = Inr s'" "gs_board s' \<noteq> []"
    "gs_effects s' = [Sleep 100] \<or> gs_effects s' = [Sleep 1000]"
    by auto
  with e [of s'] a v show ?thesis by auto
qed

text \<open>
  On the board without rows \<open>Svg\<close> does not return: \<^verbatim>\<open>b[0]\<close> panics. So the claim
  does not hold of every board.
\<close>

theorem Svg_empty_board_panics: "Svg sample_svgo [] 10 = Inl IndexOutOfRange"
  by (simp add: Svg_def)

section \<open>Properties of the stream session\<close>

subsection \<open>Decimal numerals\<close>

declare digits.simps [simp del]

lemma of_char_digit_char: "d < 10 \<Longrightarrow> (of_char (digit_char d) :: nat) = 48 + d"
proof -
  assume "d < 10"
  then have "d \<in> {0, 1, 2, 3, 4, 5, 6, 7, 8, 9}" by auto
  then show ?thesis by (auto simp: digit_char_def)
qed

lemma digits_not_Nil: "digits n \<noteq> []"
  by (subst digits.simps) simp

lemma digits_all_digits:
  "list_all (\<lambda>c. 48 \<le> (of_char c :: nat) \<and> (of_char c :: nat) \<le> 57) (digits n)"
proof (induction n rule: digits.induct)
  case (1 n)
  show ?case
  proof (cases "n < 10")
    case True
    then show ?thesis by (subst digits.simps) (simp add: of_char_digit_char)
  next
    case False
    with 1 show ?thesis by (subst digits.simps) (simp add: of_char_digit_char)
  qed
qed

lemma digits_value: "fold (\<lambda>c n. 10 * n + ((of_char c :: nat) - 48)) (digits n) 0 = n"
proof (induction n rule: digits.induct)
  case (1 n)
  show ?case
  proof (cases "n < 10")
    case True
    then show ?thesis by (subst digits.simps) (simp add: of_char_digit_char)
  next
    case False
    with 1 show ?thesis by (subst digits.simps) (simp add: of_char_digit_char)
  qed
qed

lemma read_decimal_Itoa: "read_decimal (Itoa (int n)) = Some n"
  by (simp add: read_decimal_def Itoa_def digits_not_Nil digits_all_digits digits_value)

subsection \<open>The writes of one frame\<close>

lemma no_fault_Nil: "no_fault n []"
  by (cases n) simp_all

lemma rw_Write_calls: "rw_calls (fst (rw_Write w bs)) = rw_calls w @ [bs]"
  by (simp add: rw_Write_def Let_def split: list.splits option.splits)

lemma rw_Write_ok:
  assumes "no_fault (Suc n) (rw_faults w)"
  shows "\<exists>w'. rw_Write w bs = (w', None) \<and> rw_body w' = rw_body w @ bs \<and>
              rw_header w' = rw_header w \<and> no_fault n (rw_faults w')"
proof (cases "rw_faults w")
  case Nil
  then show ?thesis by (simp add: rw_Write_def no_fault_Nil)
next
  case (Cons out fs)
  with assms show ?thesis by (cases out) (simp_all add: rw_Write_def)
qed

lemma four_writes_ok:
  assumes "no_fault 4 (rw_faults w)"
  shows "\<exists>w'. (let (w, err) = rw_Write w c1; (w, err) = rw_Write w c2;
                   (w, err) = rw_Write w c3; (w, err) = rw_Write w c4
               in (w, err)) = (w', None) \<and>
              rw_body w' = rw_body w @ c1 @ c2 @ c3 @ c4 \<and> rw_header w' = rw_header w"
proof -
  from assms have "no_fault (Suc 3) (rw_faults w)"
    by (simp add: numeral_eq_Suc)
  from rw_Write_ok [OF this, of c1]
  obtain w1 where 1: "rw_Write w c1 = (w1, None)"
    "rw_body w1 = rw_body w @ c1" "rw_header w1 = rw_header w"
    and "no_fault 3 (rw_faults w1)" by auto
  then have "no_fault (Suc 2) (rw_faults w1)"
    by (simp add: numeral_eq_Suc)
  from rw_Write_ok [OF this, of c2]
  obtain w2 where 2: "rw_Write w1 c2 = (w2, None)"
    "rw_body w2 = rw_body w1 @ c2" "rw_header w2 = rw_header w1"
    and "no_fault 2 (rw_faults w2)" by auto
  then have "no_fault (Suc 1) (rw_faults w2)"
    by (simp add: numeral_eq_Suc)
  from rw_Write_ok [OF this, of c3]
  obtain w3 where 3: "rw_Write w2 c3 = (w3, None)"
    "rw_body w3 = rw_body w2 @ c3" "rw_header w3 = rw_header w2"
    and "no_fault 1 (rw_faults w3)" by auto
  then have "no_fault (Suc 0) (rw_faults w3)"
    by simp
  from rw_Write_ok [OF this, of c4]
  obtain w4 where 4: "rw_Write w3 c4 = (w4, None)"
    "rw_body w4 = rw_body w3 @ c4" "rw_header w4 = rw_header w3"
    by auto
  from 1 2 3 4 show ?thesis by simp
qed

lemma write_frame_ok:
  assumes "no_fault 4 (rw_faults w)"
  shows "\<exists>w'. write_frame w data = (w', None) \<and> rw_header w' = rw_header w \<and>
           rw_body w' = rw_body w @ CRLF @ ''--'' @ boundary @ CRLF @
                 ''Content-Type: '' @ ContentType data @ CRLF @
                 ''Content-Length: '' @ Itoa (int (length (Data data))) @ CRLF @ CRLF @
                 Data data"
  using four_writes_ok [OF assms, of "CRLF @ ''--'' @ boundary @ CRLF"
      "''Content-Type: '' @ ContentType data @ CRLF"
      "''Content-Length: '' @ Itoa (int (length (Data data))) @ CRLF @ CRLF" "Data data"]
  unfolding write_frame_def by auto

lemma write_frame_calls:
  "rw_calls (fst (write_frame w data)) = rw_calls w @
     [CRLF @ ''--'' @ boundary @ CRLF,
      ''Content-Type: '' @ ContentType data @ CRLF,
      ''Content-Length: '' @ Itoa (int (length (Data data))) @ CRLF @ CRLF,
      Data data]"
  unfolding write_frame_def
  by (simp add: split_beta rw_Write_calls)

lemma streamHandle_pass_Recv:
  "s_phase s = Streaming \<Longrightarrow>
   streamHandle_pass (Recv data) (hub, s) =
     (hub, s\<lparr>s_conn := rw_Flush (fst (write_frame (s_conn s) data)),
             s_stdout := (case snd (write_frame (s_conn s) data) of
                            Some e \<Rightarrow> s_stdout s @ [e] | None \<Rightarrow> s_stdout s)\<rparr>)"
  by (simp add: streamHandle_pass_def split_beta)

lemma streamHandle_pass_CtxDone:
  "s_phase s = Streaming \<Longrightarrow>
   streamHandle_pass CtxDone (hub, s) =
     (s_unregister s hub,
      s\<lparr>s_phase := Closed, s_conn := rw_Header_Set ''Connection'' ''close'' (s_conn s)\<rparr>)"
  by (simp add: streamHandle_pass_def)

text \<open>
  Claim C9. The response's \<^verbatim>\<open>Content-Type\<close> header is
  \<^verbatim>\<open>multipart/x-mixed-replace; boundary=BOUNDARY\<close>. For every frame a streaming session
  receives, the chunks it passes to the connection are, joined, exactly: CR LF,
  \<^verbatim>\<open>--BOUNDARY\<close>, CR LF, \<^verbatim>\<open>Content-Type: \<close> with the frame's content type and CR LF,
  \<^verbatim>\<open>Content-Length: \<close> with the decimal numeral \<open>Itoa\<close> gives for the payload's length
  and CR LF CR LF, and the payload; the numeral reads as the payload's length. When none of the four writes fails these are
  the bytes the connection gains, and all of them are flushed.
\<close>

theorem frame_part_bytes:
  assumes "s_phase s = Streaming"
  shows "map_of (rw_header (s_conn (snd (streamHandle_enter register c w hub0))))
           ''Content-Type'' = Some ''multipart/x-mixed-replace; boundary=BOUNDARY'' \<and>
         (\<exists>s'.
            streamHandle_pass (Recv data) (hub, s) = (hub, s') \<and>
            read_decimal (Itoa (int (length (Data data)))) = Some (length (Data data)) \<and>
            concat (drop (length (rw_calls (s_conn s))) (rw_calls (s_conn s'))) =
              [CHR 0x0D, CHR 0x0A] @ ''--BOUNDARY'' @ [CHR 0x0D, CHR 0x0A] @
              ''Content-Type: '' @ ContentType data @ [CHR 0x0D, CHR 0x0A] @
              ''Content-Length: '' @ Itoa (int (length (Data data))) @ [CHR 0x0D, CHR 0x0A, CHR 0x0D, CHR 0x0A] @
              Data data \<and>
            (no_fault 4 (rw_faults (s_conn s)) \<longrightarrow>
               rw_body (s_conn s') = rw_body (s_conn s) @
                 [CHR 0x0D, CHR 0x0A] @ ''--BOUNDARY'' @ [CHR 0x0D, CHR 0x0A] @
                 ''Content-Type: '' @ ContentType data @ [CHR 0x0D, CHR 0x0A] @
                 ''Content-Length: '' @ Itoa (int (length (Data data))) @ [CHR 0x0D, CHR 0x0A, CHR 0x0D, CHR 0x0A] @
                 Data data \<and>
               rw_flushed (s_conn s') = length (rw_body (s_conn s'))))"
proof -
  have h: "map_of (rw_header (s_conn (snd (streamHandle_enter register c w hub0))))
           ''Content-Type'' = Some ''multipart/x-mixed-replace; boundary=BOUNDARY''"
    by (simp add: streamHandle_enter_def split_beta rw_Header_Set_def update_conv' boundary_def)
  let ?num = "Itoa (int (length (Data data)))"
  let ?s' = "s\<lparr>s_conn := rw_Flush (fst (write_frame (s_conn s) data)),
               s_stdout := (case snd (write_frame (s_conn s) data) of
                              Some e \<Rightarrow> s_stdout s @ [e] | None \<Rightarrow> s_stdout s)\<rparr>"
  have p: "streamHandle_pass (Recv data) (hub, s) = (hub, ?s')"
    using assms by (rule streamHandle_pass_Recv)
  have n: "read_decimal ?num = Some (length (Data data))"
    by (rule read_decimal_Itoa)
  have c: "concat (drop (length (rw_calls (s_conn s))) (rw_calls (s_conn ?s'))) =
              [CHR 0x0D, CHR 0x0A] @ ''--BOUNDARY'' @ [CHR 0x0D, CHR 0x0A] @
              ''Content-Type: '' @ ContentType data @ [CHR 0x0D, CHR 0x0A] @
              ''Content-Length: '' @ ?num @ [CHR 0x0D, CHR 0x0A, CHR 0x0D, CHR 0x0A] @
              Data data"
    by (simp add: rw_Flush_def write_frame_calls CRLF_def boundary_def)
  have b: "rw_body (s_conn ?s') = rw_body (s_conn s) @
                 [CHR 0x0D, CHR 0x0A] @ ''--BOUNDARY'' @ [CHR 0x0D, CHR 0x0A] @
                 ''Content-Type: '' @ ContentType data @ [CHR 0x0D, CHR 0x0A] @
                 ''Content-Length: '' @ ?num @ [CHR 0x0D, CHR 0x0A, CHR 0x0D, CHR 0x0A] @
                 Data data \<and>
               rw_flushed (s_conn ?s') = length (rw_body (s_conn ?s'))"
    if "no_fault 4 (rw_faults (s_conn s))"
    using write_frame_ok [OF that, of data]
    by (auto simp: rw_Flush_def CRLF_def boundary_def)
  from h p n c b show ?thesis
    by blast
qed

text \<open>
  A session of the simulation hub on a sound connection receives \<open>frame_a\<close>, whose
  payload has 6 bytes.
\<close>

theorem frame_part_bytes_witness:
  "s_phase (snd (streamHandle_enter GameRender_Register 0 sound_conn NewGameRender)) = Streaming \<and>
   no_fault 4 (rw_faults (s_conn
     (snd (streamHandle_enter GameRender_Register 0 sound_conn NewGameRender)))) \<and>
   Itoa (int (length (Data frame_a))) = ''6'' \<and>
   rw_body (s_conn (snd (streamHandle_pass (Recv frame_a)
     (streamHandle_enter GameRender_Register 0 sound_conn NewGameRender)))) =
     [CHR 0x0D, CHR 0x0A] @ ''--BOUNDARY'' @ [CHR 0x0D, CHR 0x0A] @
     ''Content-Type: image/svg+xml'' @ [CHR 0x0D, CHR 0x0A] @
     ''Content-Length: 6'' @ [CHR 0x0D, CHR 0x0A, CHR 0x0D, CHR 0x0A] @ ''<svg/>''"
proof -
  let ?e = "streamHandle_enter GameRender_Register 0 sound_conn NewGameRender"
  have e: "?e = (fst ?e, snd ?e)"
    by simp
  have a: "s_phase (snd ?e) = Streaming"
    by (simp add: streamHandle_enter_def split_beta)
  have f: "no_fault 4 (rw_faults (s_conn (snd ?e)))"
    by (simp add: streamHandle_enter_def split_beta rw_Header_Set_def sound_conn_def no_fault_Nil)
  have b: "rw_body (s_conn (snd ?e)) = []"
    by (simp add: streamHandle_enter_def split_beta rw_Header_Set_def sound_conn_def)
  have i: "Itoa (int (length (Data frame_a))) = ''6''"
    by (simp add: frame_a_def Itoa_def digits.simps digit_char_def)
  from frame_part_bytes [OF a, of GameRender_Register 0 sound_conn NewGameRender frame_a "fst ?e"]
  obtain s' where "streamHandle_pass (Recv frame_a) (fst ?e, snd ?e) = (fst ?e, s')"
    and "no_fault 4 (rw_faults (s_conn (snd ?e))) \<longrightarrow>
      rw_body (s_conn s') = rw_body (s_conn (snd ?e)) @
        [CHR 0x0D, CHR 0x0A] @ ''--BOUNDARY'' @ [CHR 0x0D, CHR 0x0A] @
        ''Content-Type: '' @ ContentType frame_a @ [CHR 0x0D, CHR 0x0A] @
        ''Content-Length: '' @ Itoa (int (length (Data frame_a))) @
        [CHR 0x0D, CHR 0x0A, CHR 0x0D, CHR 0x0A] @ Data frame_a \<and>
      rw_flushed (s_conn s') = length (rw_body (s_conn s'))"
    by blast
  with f b i have "rw_body (s_conn (snd (streamHandle_pass (Recv frame_a) ?e))) =
     [CHR 0x0D, CHR 0x0A] @ ''--BOUNDARY'' @ [CHR 0x0D, CHR 0x0A] @
     ''Content-Type: image/svg+xml'' @ [CHR 0x0D, CHR 0x0A] @
     ''Content-Length: 6'' @ [CHR 0x0D, CHR 0x0A, CHR 0x0D, CHR 0x0A] @ ''<svg/>''"
    by (simp add: frame_a_def)
  with a f i show ?thesis by blast
qed

subsection \<open>Write failures\<close>

text \<open>
  Claim C3, as the code has it. In a streaming session, a failure that the last of a
  frame's four writes reports is printed and nothing more: the session stays in
  \<open>Streaming\<close> with the same \<open>unregister\<close> closure, and the hub is left as it was, so
  the other sessions and the producer see nothing of it. The session becomes \<open>Closed\<close>
  when its request context is done; this is when \<open>unregister\<close> is applied to the hub,
  for the simulation hub removing the session's channel from the members. A closed
  session does nothing more.
\<close>

theorem write_failure_logged:
  assumes "s_phase s = Streaming" and "snd (write_frame (s_conn s) data) = Some e"
  shows "(\<exists>s'. streamHandle_pass (Recv data) (hub, s) = (hub, s') \<and> s_phase s' = Streaming \<and>
               s_unregister s' = s_unregister s \<and> s_stdout s' = s_stdout s @ [e]) \<and>
         (\<exists>s'. streamHandle_pass CtxDone (hub, s) = (s_unregister s hub, s') \<and>
               s_phase s' = Closed \<and>
               streamHandle_pass ev (s_unregister s hub, s') = (s_unregister s hub, s')) \<and>
         c \<notin> fst ` set (gameChs (fst (streamHandle_pass CtxDone
                 (streamHandle_enter GameRender_Register c w r))))"
proof (intro conjI)
  show "\<exists>s'. streamHandle_pass (Recv data) (hub, s) = (hub, s') \<and> s_phase s' = Streaming \<and>
               s_unregister s' = s_unregister s \<and> s_stdout s' = s_stdout s @ [e]"
    using assms by (simp add: streamHandle_pass_Recv)
  show "\<exists>s'. streamHandle_pass CtxDone (hub, s) = (s_unregister s hub, s') \<and>
               s_phase s' = Closed \<and>
               streamHandle_pass ev (s_unregister s hub, s') = (s_unregister s hub, s')"
    using assms(1) by (simp add: streamHandle_pass_CtxDone) (simp add: streamHandle_pass_def)
  show "c \<notin> fst ` set (gameChs (fst (streamHandle_pass CtxDone
                 (streamHandle_enter GameRender_Register c w r))))"
    by (simp add: streamHandle_enter_def streamHandle_pass_def GameRender_Register_def
        AList.delete_notin_dom)
qed

lemma enter_broken:
  "streamHandle_enter GameRender_Register 0 broken_conn NewGameRender =
     (\<lparr>gameChs = [(0, ())]\<rparr>,
      \<lparr>s_phase = Streaming,
       s_conn = broken_conn\<lparr>rw_header :=
                 [(''Content-Type'', ''multipart/x-mixed-replace; boundary=BOUNDARY'')]\<rparr>,
       s_ch = 0,
       s_unregister = (\<lambda>r. r\<lparr>gameChs := AList.delete 0 (gameChs r)\<rparr>),
       s_stdout = []\<rparr>)"
  by (simp add: streamHandle_enter_def GameRender_Register_def NewGameRender_def
      rw_Header_Set_def broken_conn_def boundary_def)

lemma write_frame_broken:
  "snd (write_frame (broken_conn\<lparr>rw_header := hs\<rparr>) data) = Some ''write: broken pipe''"
  by (simp add: write_frame_def rw_Write_def broken_conn_def)

text \<open>
  A session of the simulation hub on the connection whose fourth write fails: the
  failure is printed, the session streams on, and the context's end closes it.
\<close>

theorem write_failure_logged_witness:
  "s_phase (snd (streamHandle_enter GameRender_Register 0 broken_conn NewGameRender)) = Streaming \<and>
   snd (write_frame
     (s_conn (snd (streamHandle_enter GameRender_Register 0 broken_conn NewGameRender)))
     frame_a) = Some ''write: broken pipe'' \<and>
   s_stdout (snd (streamHandle_pass (Recv frame_a)
     (streamHandle_enter GameRender_Register 0 broken_conn NewGameRender))) =
     [''write: broken pipe''] \<and>
   s_phase (snd (streamHandle_pass CtxDone
     (streamHandle_enter GameRender_Register 0 broken_conn NewGameRender))) = Closed \<and>
   gameChs (fst (streamHandle_pass CtxDone
     (streamHandle_enter GameRender_Register 0 broken_conn NewGameRender))) = []"
proof -
  let ?e = "streamHandle_enter GameRender_Register 0 broken_conn NewGameRender"
  have a: "s_phase (snd ?e) = Streaming"
    by (simp add: enter_broken)
  have b: "snd (write_frame (s_conn (snd ?e)) frame_a) = Some ''write: broken pipe''"
    by (simp add: enter_broken write_frame_broken)
  have h: "fst ?e = \<lparr>gameChs = [(0, ())]\<rparr>"
    by (simp add: enter_broken)
  have u: "s_unregister (snd ?e) (fst ?e) = \<lparr>gameChs = []\<rparr>"
    by (simp add: enter_broken)
  have s: "s_stdout (snd ?e) = []"
    by (simp add: enter_broken)
  from write_failure_logged [OF a b, where hub = "fst ?e" and ev = CtxDone and c = 0
      and w = broken_conn and r = NewGameRender] u s
  have "s_stdout (snd (streamHandle_pass (Recv frame_a) ?e)) = [''write: broken pipe''] \<and>
        s_phase (snd (streamHandle_pass CtxDone ?e)) = Closed \<and>
        gameChs (fst (streamHandle_pass CtxDone ?e)) = []"
    by auto
  with a b show ?thesis by blast
qed

text \<open>
  The claim itself fails there: after the failed write the session is still
  \<open>Streaming\<close> and its channel 0 is still a member of the hub.
\<close>

theorem write_failure_not_closed:
  "snd (write_frame
     (s_conn (snd (streamHandle_enter GameRender_Register 0 broken_conn NewGameRender)))
     frame_a) = Some ''write: broken pipe'' \<and>
   s_phase (snd (streamHandle_pass (Recv frame_a)
     (streamHandle_enter GameRender_Register 0 broken_conn NewGameRender))) = Streaming \<and>
   gameChs (fst (streamHandle_pass (Recv frame_a)
     (streamHandle_enter GameRender_Register 0 broken_conn NewGameRender))) = [(0, ())]"
  by (simp add: enter_broken write_frame_broken streamHandle_pass_Recv)

end
